theory Spec2Isabelle
  imports Main "HOL-Library.AList" "HOL-Library.Sublist"
begin

section \<open>The updater of richbess: backup, fetch, clean, apply, restore\<close>

text \<open>
  The update script works on the directory it is started from. Every path it
  builds is \<open>path.join(process.cwd(), ...)\<close>, so a path is modelled as the
  list of its components below the working directory, and the working
  directory as a tree of files and directories. A directory keeps its entries
  in the order \<open>readdir\<close> lists them. Symbolic links and special files are
  outside the model.

  What the script prints is kept as a list of events, one constructor for each
  kind of line the operator can tell apart (the start, the success and the
  failure line of each step, the progress counter, the closing lines). Detail
  lines and hints that carry no state are left out, and so are the header, the
  countdown and the spinners, which only draw on the terminal.
\<close>

subsection \<open>The file system\<close>

type_synonym content = string
type_synonym path = "string list"

datatype node = File content | Dir "(string \<times> node) list"

datatype error =
    ENOENT | ENOTDIR | EISDIR | EEXIST
  | ECommand | EClone | EInstall | ENetwork | EHttp nat

primrec resolve :: "node \<Rightarrow> path \<Rightarrow> node option" where
  "resolve n [] = Some n"
| "resolve n (x # p) =
     (case n of
        File _ \<Rightarrow> None
      | Dir es \<Rightarrow> (case map_of es x of None \<Rightarrow> None | Some ch \<Rightarrow> resolve ch p))"

definition existsSync :: "path \<Rightarrow> node \<Rightarrow> bool" where
  "existsSync p s = (resolve s p \<noteq> None)"

text \<open>\<open>fs.mkdir(p, { recursive: true })\<close>: creates every missing directory on
  the way, accepts a directory that is already there, fails on a file.\<close>

fun mkdir_recursive :: "path \<Rightarrow> node \<Rightarrow> error + node" where
  "mkdir_recursive [] n = (case n of Dir _ \<Rightarrow> Inr n | File _ \<Rightarrow> Inl EEXIST)"
| "mkdir_recursive (x # p) n =
     (case n of
        File _ \<Rightarrow> Inl ENOTDIR
      | Dir es \<Rightarrow>
          (case mkdir_recursive p (case map_of es x of None \<Rightarrow> Dir [] | Some ch \<Rightarrow> ch) of
             Inl e \<Rightarrow> Inl e
           | Inr ch' \<Rightarrow> Inr (Dir (AList.update x ch' es))))"

text \<open>Writing a file creates or overwrites it; the parent directory must exist
  and the target must not be a directory.\<close>

fun writeFile :: "path \<Rightarrow> content \<Rightarrow> node \<Rightarrow> error + node" where
  "writeFile [] c n = (case n of File _ \<Rightarrow> Inr (File c) | Dir _ \<Rightarrow> Inl EISDIR)"
| "writeFile (x # p) c n =
     (case n of
        File _ \<Rightarrow> Inl ENOTDIR
      | Dir es \<Rightarrow>
          (case map_of es x of
             None \<Rightarrow> if p = [] then Inr (Dir (AList.update x (File c) es)) else Inl ENOENT
           | Some ch \<Rightarrow>
               (case writeFile p c ch of
                  Inl e \<Rightarrow> Inl e
                | Inr ch' \<Rightarrow> Inr (Dir (AList.update x ch' es)))))"

text \<open>Taking an entry, with everything below it, out of the tree. A path that
  is not there leaves the tree as it is.\<close>

fun rm :: "path \<Rightarrow> node \<Rightarrow> node" where
  "rm [] n = n"
| "rm (x # p) (File c) = File c"
| "rm [x] (Dir es) = Dir (AList.delete x es)"
| "rm (x # y # p) (Dir es) =
     (case map_of es x of
        None \<Rightarrow> Dir es
      | Some ch \<Rightarrow> Dir (AList.update x (rm (y # p) ch) es))"

definition readdir :: "path \<Rightarrow> node \<Rightarrow> error + string list" where
  "readdir p s =
     (case resolve s p of
        None \<Rightarrow> Inl ENOENT
      | Some (File _) \<Rightarrow> Inl ENOTDIR
      | Some (Dir es) \<Rightarrow> Inr (map fst es))"

definition stat :: "path \<Rightarrow> node \<Rightarrow> error + node" where
  "stat p s = (case resolve s p of None \<Rightarrow> Inl ENOENT | Some n \<Rightarrow> Inr n)"

fun isDirectory :: "node \<Rightarrow> bool" where
  "isDirectory (Dir _) = True"
| "isDirectory (File _) = False"

definition copyFile :: "path \<Rightarrow> path \<Rightarrow> node \<Rightarrow> error + node" where
  "copyFile src dst s =
     (case resolve s src of
        None \<Rightarrow> Inl ENOENT
      | Some (Dir _) \<Rightarrow> Inl EISDIR
      | Some (File c) \<Rightarrow> writeFile dst c s)"

definition unlink :: "path \<Rightarrow> node \<Rightarrow> error + node" where
  "unlink p s =
     (case resolve s p of
        None \<Rightarrow> Inl ENOENT
      | Some (Dir _) \<Rightarrow> Inl EISDIR
      | Some (File _) \<Rightarrow> Inr (rm p s))"

text \<open>\<open>fs.rm(p, { recursive: true, force: true })\<close> and, on Windows, the shell
  command \<open>rmdir /s /q\<close> run through \<open>execSync\<close>, which throws when the
  command fails: it removes a directory tree and nothing else.\<close>

definition rm_recursive_force :: "path \<Rightarrow> node \<Rightarrow> error + node" where
  "rm_recursive_force p s = Inr (rm p s)"

definition rmdir_s_q :: "path \<Rightarrow> node \<Rightarrow> error + node" where
  "rmdir_s_q p s =
     (case resolve s p of
        Some (Dir _) \<Rightarrow> Inr (rm p s)
      | Some (File _) \<Rightarrow> Inl ECommand
      | None \<Rightarrow> Inl ECommand)"

text \<open>An entry put directly below the working directory by an external
  program.\<close>

definition place :: "string \<Rightarrow> node \<Rightarrow> node \<Rightarrow> node" where
  "place x t s = (case s of Dir es \<Rightarrow> Dir (AList.update x t es) | File c \<Rightarrow> File c)"

subsection \<open>Actions: file-system code that may throw\<close>

text \<open>
  An action takes the tree and gives the tree it leaves behind, together with
  the error it threw, if any: what was written before a throw stays written.
  The outer \<open>option\<close> is \<open>None\<close> when the action does not return.
\<close>

type_synonym action = "node \<Rightarrow> (error option \<times> node) option"

definition io :: "(node \<Rightarrow> error + node) \<Rightarrow> action" where
  "io f s = (case f s of Inl e \<Rightarrow> Some (Some e, s) | Inr s1 \<Rightarrow> Some (None, s1))"

definition skip :: action where
  "skip s = Some (None, s)"

definition andThen :: "action \<Rightarrow> action \<Rightarrow> action" where
  "andThen a b s =
     (case a s of
        None \<Rightarrow> None
      | Some (r, s1) \<Rightarrow> (case r of Some e \<Rightarrow> Some (Some e, s1) | None \<Rightarrow> b s1))"

definition inOrder :: "action list \<Rightarrow> action" where
  "inOrder as = foldr andThen as skip"

definition ifExists :: "path \<Rightarrow> action \<Rightarrow> action" where
  "ifExists p a s = (if existsSync p s then a s else skip s)"

subsection \<open>copyDirectoryAsync\<close>

text \<open>
  The function and the loop over the entries it read are one recursion: the
  task says which of the two is running. Copying a directory into one of its
  own subdirectories never returns, so the recursion is a partial function.
\<close>

datatype copy_task = CopyDir path path | CopyEntries "string list" path path

partial_function (option) copy_run :: "copy_task \<Rightarrow> node \<Rightarrow> (error option \<times> node) option" where
  "copy_run t s =
     (case t of
        CopyDir source destination \<Rightarrow>
          (case (if existsSync destination s then Inr s else mkdir_recursive destination s) of
             Inl e \<Rightarrow> Some (Some e, s)
           | Inr s1 \<Rightarrow>
               (case readdir source s1 of
                  Inl e \<Rightarrow> Some (Some e, s1)
                | Inr files \<Rightarrow> copy_run (CopyEntries files source destination) s1))
      | CopyEntries [] source destination \<Rightarrow> Some (None, s)
      | CopyEntries (file # files) source destination \<Rightarrow>
          (case stat (source @ [file]) s of
             Inl e \<Rightarrow> Some (Some e, s)
           | Inr stats \<Rightarrow>
               if isDirectory stats then
                 Option.bind (copy_run (CopyDir (source @ [file]) (destination @ [file])) s)
                   (\<lambda>(r, s1). case r of
                        Some e \<Rightarrow> Some (Some e, s1)
                      | None \<Rightarrow> copy_run (CopyEntries files source destination) s1)
               else
                 (case copyFile (source @ [file]) (destination @ [file]) s of
                    Inl e \<Rightarrow> Some (Some e, s)
                  | Inr s1 \<Rightarrow> copy_run (CopyEntries files source destination) s1)))"

declare copy_run.simps [code]

definition copyDirectoryAsync :: "path \<Rightarrow> path \<Rightarrow> action" where
  "copyDirectoryAsync source destination = copy_run (CopyDir source destination)"

subsection \<open>The environment of a run\<close>

text \<open>
  Everything the script asks of the outside: the platform, the clock at module
  load, whether \<open>git\<close> and \<open>npm\<close> answer, what \<open>git clone\<close> delivers into the
  staging directory, whether \<open>ping\<close> reaches the host, what the package
  installer does to the tree, and the answer of the commits API together with
  the page number the link header carried. The record of the last update is
  written next to the script (\<open>__dirname/../../database/updateSave.json\<close>);
  its place below the working directory is a parameter.

  The operator may interrupt the run (\<open>SIGINT\<close> or \<open>SIGTERM\<close>). The field
  \<open>signalAt\<close> is \<open>None\<close> when no signal arrives while the script runs, and
  \<open>Some k\<close> when the signal arrives while the operation that follows the first
  \<open>k\<close> steps is in flight: step \<open>k\<close>, counted from 0, or, once all steps
  are done, the request for the commit information.
\<close>

datatype clone_result = Cloned node | CloneFailed error "node option"

datatype http_result = FetchThrew error | Response bool nat "string option"

record env =
  isWindows :: bool
  startedAt :: string
  gitFound :: bool
  npmFound :: bool
  gitClone :: clone_result
  pingOk :: bool
  npmInstall :: "node \<Rightarrow> error option \<times> node"
  commitsApi :: http_result
  updateSave :: path
  signalAt :: "nat option"

text \<open>\<open>backup_${new Date().toISOString().replace(/[:.]/g, '_').replace(/T/, '_')}\<close>\<close>

fun replace_first :: "char \<Rightarrow> char \<Rightarrow> string \<Rightarrow> string" where
  "replace_first a b [] = []"
| "replace_first a b (c # cs) = (if c = a then b # cs else c # replace_first a b cs)"

definition backup_name :: "string \<Rightarrow> string" where
  "backup_name stamp =
     ''backup_'' @
       replace_first (CHR ''T'') (CHR ''_'')
         (map (\<lambda>c. if c = CHR '':'' \<or> c = CHR ''.'' then CHR ''_'' else c) stamp)"

definition BACKUP_DIR :: "env \<Rightarrow> path" where
  "BACKUP_DIR env = [backup_name (startedAt env)]"

definition TEMP_DIR :: path where
  "TEMP_DIR = [''temp_richbess'']"

definition removeTree :: "env \<Rightarrow> path \<Rightarrow> node \<Rightarrow> error + node" where
  "removeTree env p = (if isWindows env then rmdir_s_q p else rm_recursive_force p)"

subsection \<open>Steps\<close>

datatype step_id =
    CheckRequirements | ConfirmUpdate | CreateBackup | DownloadUpdate | CleanOldFiles
  | ApplyUpdate | RestoreBackup | InstallDependencies | Cleanup

datatype event =
    Begin step_id
  | Succeeded step_id
  | Failed step_id error
  | ToolMissing string
  | Diagnosis bool
  | BackupRemoved
  | Progress nat nat
  | FetchingCommitInfo
  | UpdateCompleted
  | UpdateError error
  | BackupAvailable path
  | Cancelled

datatype outcome = Done | Raise error | Exited nat

record world =
  disk :: node
  console :: "event list"

type_synonym step = "world \<Rightarrow> (outcome \<times> world) option"

definition say :: "event list \<Rightarrow> world \<Rightarrow> world" where
  "say evs w = w\<lparr>console := console w @ evs\<rparr>"

text \<open>
  The shape shared by the steps that work on the tree: print the opening line,
  run the body, print the success line; on a throw print the failure line (and
  whatever the handler adds) and throw again.
\<close>

definition attempt :: "step_id \<Rightarrow> event list \<Rightarrow> action \<Rightarrow> step" where
  "attempt sid diag body w =
     (case body (disk w) of
        None \<Rightarrow> None
      | Some (r, s) \<Rightarrow>
          (case r of
             None \<Rightarrow> Some (Done, \<lparr>disk = s, console = console w @ [Begin sid, Succeeded sid]\<rparr>)
           | Some e \<Rightarrow>
               Some (Raise e, \<lparr>disk = s, console = console w @ [Begin sid, Failed sid e] @ diag\<rparr>)))"

definition checkRequirements :: "env \<Rightarrow> step" where
  "checkRequirements env w =
     (if \<not> gitFound env then
        Some (Exited 1, say [Begin CheckRequirements, ToolMissing ''git''] w)
      else if \<not> npmFound env then
        Some (Exited 1, say [Begin CheckRequirements, ToolMissing ''npm''] w)
      else Some (Done, say [Begin CheckRequirements, Succeeded CheckRequirements] w))"

definition confirmUpdate :: step where
  "confirmUpdate w = Some (Done, say [Begin ConfirmUpdate, Succeeded ConfirmUpdate] w)"

definition createBackup_body :: "env \<Rightarrow> action" where
  "createBackup_body env =
     inOrder
       [io (mkdir_recursive (BACKUP_DIR env @ [''dados'', ''database''])),
        io (mkdir_recursive (BACKUP_DIR env @ [''dados'', ''src''])),
        io (mkdir_recursive (BACKUP_DIR env @ [''dados'', ''midias''])),
        ifExists [''dados'', ''database'']
          (copyDirectoryAsync [''dados'', ''database''] (BACKUP_DIR env @ [''dados'', ''database''])),
        ifExists [''dados'', ''src'', ''config.json'']
          (io (copyFile [''dados'', ''src'', ''config.json'']
                 (BACKUP_DIR env @ [''dados'', ''src'', ''config.json'']))),
        ifExists [''dados'', ''midias'']
          (copyDirectoryAsync [''dados'', ''midias''] (BACKUP_DIR env @ [''dados'', ''midias'']))]"

definition createBackup :: "env \<Rightarrow> step" where
  "createBackup env = attempt CreateBackup [] (createBackup_body env)"

text \<open>
  \<open>git clone --depth 1\<close> writes the staging directory and nothing else. When
  it fails, the callback of \<open>exec\<close> rejects the promise before the listener on
  \<open>close\<close> can resolve it, so the failure is thrown; a failed clone may leave
  a partial tree behind.
\<close>

definition git_clone :: "env \<Rightarrow> action" where
  "git_clone env s =
     (case gitClone env of
        Cloned t \<Rightarrow> Some (None, place ''temp_richbess'' t s)
      | CloneFailed e left \<Rightarrow>
          Some (Some e, case left of None \<Rightarrow> s | Some t \<Rightarrow> place ''temp_richbess'' t s))"

definition downloadUpdate_body :: "env \<Rightarrow> action" where
  "downloadUpdate_body env =
     inOrder
       [ifExists TEMP_DIR (io (removeTree env TEMP_DIR)),
        git_clone env,
        ifExists (TEMP_DIR @ [''README.md'']) (io (unlink (TEMP_DIR @ [''README.md''])))]"

definition downloadUpdate :: "env \<Rightarrow> step" where
  "downloadUpdate env = attempt DownloadUpdate [Diagnosis (pingOk env)] (downloadUpdate_body env)"

datatype item_type = DirItem | FileItem

definition itemsToDelete :: "(string \<times> item_type) list" where
  "itemsToDelete =
     [(''.git'', DirItem), (''.github'', DirItem), (''.npm'', DirItem),
      (''node_modules'', DirItem), (''package.json'', FileItem),
      (''package-lock.json'', FileItem), (''README.md'', FileItem)]"

definition deleteItem :: "env \<Rightarrow> string \<times> item_type \<Rightarrow> action" where
  "deleteItem env item =
     ifExists [fst item]
       (io (case snd item of
              DirItem \<Rightarrow> removeTree env [fst item]
            | FileItem \<Rightarrow> unlink [fst item]))"

fun cleanEntries :: "env \<Rightarrow> path \<Rightarrow> path \<Rightarrow> string list \<Rightarrow> node \<Rightarrow> error option \<times> node" where
  "cleanEntries env directory excludeDir [] s = (None, s)"
| "cleanEntries env directory excludeDir (file # files) s =
     (if directory @ [file] = excludeDir then cleanEntries env directory excludeDir files s
      else
        (case stat (directory @ [file]) s of
           Inl e \<Rightarrow> (Some e, s)
         | Inr stats \<Rightarrow>
             (case (if isDirectory stats then removeTree env (directory @ [file]) s
                    else unlink (directory @ [file]) s) of
                Inl e \<Rightarrow> (Some e, s)
              | Inr s1 \<Rightarrow> cleanEntries env directory excludeDir files s1)))"

definition cleanDirectoryAsync :: "env \<Rightarrow> path \<Rightarrow> path \<Rightarrow> action" where
  "cleanDirectoryAsync env directory excludeDir s =
     (case readdir directory s of
        Inl e \<Rightarrow> Some (Some e, s)
      | Inr files \<Rightarrow> Some (cleanEntries env directory excludeDir files s))"

definition cleanOldFiles_body :: "env \<Rightarrow> action" where
  "cleanOldFiles_body env =
     andThen (inOrder (map (deleteItem env) itemsToDelete))
       (ifExists [''dados''] (cleanDirectoryAsync env [''dados''] (BACKUP_DIR env)))"

definition cleanOldFiles :: "env \<Rightarrow> step" where
  "cleanOldFiles env = attempt CleanOldFiles [] (cleanOldFiles_body env)"

primrec applyEntries :: "string list \<Rightarrow> action" where
  "applyEntries [] = skip"
| "applyEntries (file # files) =
     (\<lambda>s. case stat (TEMP_DIR @ [file]) s of
             Inl e \<Rightarrow> Some (Some e, s)
           | Inr stats \<Rightarrow>
               andThen
                 (if isDirectory stats then copyDirectoryAsync (TEMP_DIR @ [file]) [file]
                  else io (copyFile (TEMP_DIR @ [file]) [file]))
                 (applyEntries files) s)"

definition applyUpdate_body :: "env \<Rightarrow> action" where
  "applyUpdate_body env s =
     (case readdir TEMP_DIR s of
        Inl e \<Rightarrow> Some (Some e, s)
      | Inr tempFiles \<Rightarrow>
          andThen (applyEntries tempFiles) (ifExists TEMP_DIR (io (removeTree env TEMP_DIR))) s)"

definition applyUpdate :: "env \<Rightarrow> step" where
  "applyUpdate env = attempt ApplyUpdate [] (applyUpdate_body env)"

definition restoreBackup_body :: "env \<Rightarrow> action" where
  "restoreBackup_body env =
     inOrder
       [io (mkdir_recursive [''dados'', ''database'']),
        io (mkdir_recursive [''dados'', ''src'']),
        io (mkdir_recursive [''dados'', ''midias'']),
        ifExists (BACKUP_DIR env @ [''dados'', ''database''])
          (copyDirectoryAsync (BACKUP_DIR env @ [''dados'', ''database'']) [''dados'', ''database'']),
        ifExists (BACKUP_DIR env @ [''dados'', ''src'', ''config.json''])
          (io (copyFile (BACKUP_DIR env @ [''dados'', ''src'', ''config.json''])
                 [''dados'', ''src'', ''config.json''])),
        ifExists (BACKUP_DIR env @ [''dados'', ''midias''])
          (copyDirectoryAsync (BACKUP_DIR env @ [''dados'', ''midias'']) [''dados'', ''midias''])]"

definition restoreBackup :: "env \<Rightarrow> step" where
  "restoreBackup env = attempt RestoreBackup [] (restoreBackup_body env)"

definition installDependencies :: "env \<Rightarrow> step" where
  "installDependencies env = attempt InstallDependencies [] (\<lambda>s. Some (npmInstall env s))"

text \<open>The last step catches what it throws and does not throw again.\<close>

definition cleanup :: "env \<Rightarrow> step" where
  "cleanup env w =
     (if existsSync (BACKUP_DIR env) (disk w) then
        (case removeTree env (BACKUP_DIR env) (disk w) of
           Inl e \<Rightarrow> Some (Done, say [Begin Cleanup, Failed Cleanup e] w)
         | Inr s \<Rightarrow>
             Some (Done, \<lparr>disk = s, console = console w @ [Begin Cleanup, BackupRemoved]\<rparr>))
      else Some (Done, say [Begin Cleanup] w))"

subsection \<open>main\<close>

definition steps :: "env \<Rightarrow> step list" where
  "steps env =
     [checkRequirements env, confirmUpdate, createBackup env, downloadUpdate env,
      cleanOldFiles env, applyUpdate env, restoreBackup env, installDependencies env,
      cleanup env]"

text \<open>The steps by name, in the order of the array.\<close>

definition step_ids :: "step_id list" where
  "step_ids =
     [CheckRequirements, ConfirmUpdate, CreateBackup, DownloadUpdate, CleanOldFiles,
      ApplyUpdate, RestoreBackup, InstallDependencies, Cleanup]"

fun runSteps :: "step list \<Rightarrow> nat \<Rightarrow> nat \<Rightarrow> world \<Rightarrow> (outcome \<times> world) option" where
  "runSteps [] completedSteps totalSteps w = Some (Done, w)"
| "runSteps (func # rest) completedSteps totalSteps w =
     (case func w of
        None \<Rightarrow> None
      | Some (r, w1) \<Rightarrow>
          (case r of
             Done \<Rightarrow>
               runSteps rest (completedSteps + 1) totalSteps
                 (say [Progress (completedSteps + 1) totalSteps] w1)
           | Raise e \<Rightarrow> Some (Raise e, w1)
           | Exited c \<Rightarrow> Some (Exited c, w1)))"

text \<open>\<open>JSON.stringify({ total: NumberUp })\<close>: a property that is undefined is
  left out.\<close>

definition jsonUp :: "string option \<Rightarrow> content" where
  \<open>jsonUp NumberUp =
     (case NumberUp of None \<Rightarrow> ''{}'' | Some n \<Rightarrow> ''{"total":"'' @ n @ ''"}'')\<close>

definition saveCommitInfo :: "env \<Rightarrow> world \<Rightarrow> outcome \<times> world" where
  "saveCommitInfo env w =
     (case commitsApi env of
        FetchThrew e \<Rightarrow> (Raise e, say [FetchingCommitInfo] w)
      | Response ok status NumberUp \<Rightarrow>
          if \<not> ok then (Raise (EHttp status), say [FetchingCommitInfo] w)
          else
            (case writeFile (updateSave env) (jsonUp NumberUp) (disk w) of
               Inl e \<Rightarrow> (Raise e, say [FetchingCommitInfo] w)
             | Inr s \<Rightarrow>
                 (Done, \<lparr>disk = s, console = console w @ [FetchingCommitInfo, UpdateCompleted]\<rparr>)))"

text \<open>
  \<open>setupGracefulShutdown\<close>, the first call of \<open>main\<close>, installs one handler
  for \<open>SIGINT\<close> and \<open>SIGTERM\<close>: it prints that the operator cancelled the
  update and ends the process with code 0. Nothing is undone and nothing is
  removed.
\<close>

definition shutdown :: step where
  "shutdown w = Some (Exited 0, say [Cancelled] w)"

text \<open>
  Every operation prints its opening line before it first waits, and a handler
  can only run while the script waits. So when the signal arrives, the
  operation in flight has printed that line. What else it printed and what it
  wrote before the handler ended the process is not followed: the tree is
  taken as the operation found it.
\<close>

definition inFlight :: "nat \<Rightarrow> event list" where
  "inFlight k = (if k < length step_ids then [Begin (step_ids ! k)] else [FetchingCommitInfo])"

text \<open>The body of the \<open>try\<close> block of \<open>main\<close>, then its handler. The result
  is the exit code of the process and the world it leaves.\<close>

definition main_try :: "env \<Rightarrow> step" where
  "main_try env w =
     (case signalAt env of
        None \<Rightarrow>
          (case runSteps (steps env) 0 (length (steps env)) w of
             None \<Rightarrow> None
           | Some (r, w1) \<Rightarrow>
               (case r of
                  Done \<Rightarrow> Some (saveCommitInfo env w1)
                | Raise e \<Rightarrow> Some (Raise e, w1)
                | Exited c \<Rightarrow> Some (Exited c, w1)))
      | Some k \<Rightarrow>
          (case runSteps (take k (steps env)) 0 (length (steps env)) w of
             None \<Rightarrow> None
           | Some (r, w1) \<Rightarrow>
               (case r of
                  Done \<Rightarrow> shutdown (say (inFlight k) w1)
                | Raise e \<Rightarrow> Some (Raise e, w1)
                | Exited c \<Rightarrow> Some (Exited c, w1))))"

definition main :: "env \<Rightarrow> world \<Rightarrow> (nat \<times> world) option" where
  "main env w =
     (case main_try env w of
        None \<Rightarrow> None
      | Some (r, w1) \<Rightarrow>
          (case r of
             Done \<Rightarrow> Some (0, w1)
           | Raise e \<Rightarrow> Some (1, say [UpdateError e, BackupAvailable (BACKUP_DIR env)] w1)
           | Exited c \<Rightarrow> Some (c, w1)))"

subsection \<open>The call-order log\<close>

text \<open>Every step prints its opening line first, so the steps that were started
  can be read off the console in the order they were called.\<close>

fun begun :: "event list \<Rightarrow> step_id list" where
  "begun [] = []"
| "begun (Begin sid # evs) = sid # begun evs"
| "begun (_ # evs) = begun evs"


subsection \<open>Notions for the statements\<close>

text \<open>A tree is well formed when no directory lists a name twice.\<close>

fun wf_node :: "node \<Rightarrow> bool" where
  "wf_node (File c) = True"
| "wf_node (Dir es) = (distinct (map fst es) \<and> list_all (\<lambda>e. wf_node (snd e)) es)"

text \<open>Two paths are apart when they part ways at some component: neither is a
  prefix of the other. What is written at one cannot be seen at the other.\<close>

fun apart :: "path \<Rightarrow> path \<Rightarrow> bool" where
  "apart (x # p) (y # q) = (x \<noteq> y \<or> apart p q)"
| "apart _ _ = False"

text \<open>The paths a copy task may write: those not apart from its destination.\<close>

fun touches :: "copy_task \<Rightarrow> path \<Rightarrow> bool" where
  "touches (CopyDir source destination) q = (\<not> apart destination q)"
| "touches (CopyEntries files source destination) q =
     (\<exists>file\<in>set files. \<not> apart (destination @ [file]) q)"

text \<open>An action preserves a path when the path resolves afterwards as before,
  whether the action succeeded or threw.\<close>

definition preserves :: "path \<Rightarrow> action \<Rightarrow> bool" where
  "preserves p a = (\<forall>s r s'. a s = Some (r, s') \<longrightarrow> resolve s' p = resolve s p)"

text \<open>An action keeps a path when a path that resolves before it still
  resolves after it, whether the action succeeded or threw.\<close>

definition keeps :: "path \<Rightarrow> action \<Rightarrow> bool" where
  "keeps q a = (\<forall>s r s'. a s = Some (r, s') \<longrightarrow> resolve s q \<noteq> None \<longrightarrow> resolve s' q \<noteq> None)"

text \<open>\<open>put p v s\<close> is the tree \<open>s\<close> with \<open>v\<close> at \<open>p\<close>, the directories on the
  way made where they are missing. It describes results; the updater itself
  never calls it.\<close>

fun put :: "path \<Rightarrow> node \<Rightarrow> node \<Rightarrow> node" where
  "put [] v n = v"
| "put (x # p) v n =
     (case n of
        File c \<Rightarrow> File c
      | Dir es \<Rightarrow>
          Dir (AList.update x (put p v (case map_of es x of None \<Rightarrow> Dir [] | Some ch \<Rightarrow> ch)) es))"

text \<open>A path is passable when no file stands where it needs a directory.\<close>

fun passable :: "node \<Rightarrow> path \<Rightarrow> bool" where
  "passable n [] = True"
| "passable n (x # p) =
     (case n of
        File c \<Rightarrow> False
      | Dir es \<Rightarrow> (case map_of es x of None \<Rightarrow> True | Some ch \<Rightarrow> passable ch p))"

text \<open>What \<open>createBackup\<close> is expected to put at the snapshot location.\<close>

definition snapshot_of :: "node \<Rightarrow> node" where
  "snapshot_of s =
     Dir [(''dados'',
           Dir [(''database'',
                 case resolve s [''dados'', ''database''] of None \<Rightarrow> Dir [] | Some n \<Rightarrow> n),
                (''src'',
                 Dir (case resolve s [''dados'', ''src'', ''config.json''] of
                        None \<Rightarrow> []
                      | Some n \<Rightarrow> [(''config.json'', n)])),
                (''midias'',
                 case resolve s [''dados'', ''midias''] of None \<Rightarrow> Dir [] | Some n \<Rightarrow> n)])]"

text \<open>The trees \<open>createBackup\<close> is meant for: well formed, and each configured
  path either absent or of its kind.\<close>

definition backup_ready :: "node \<Rightarrow> bool" where
  "backup_ready s =
     (isDirectory s \<and> wf_node s
      \<and> (case resolve s [''dados'', ''database''] of Some (File c) \<Rightarrow> False | _ \<Rightarrow> True)
      \<and> (case resolve s [''dados'', ''src'', ''config.json''] of Some (Dir es) \<Rightarrow> False | _ \<Rightarrow> True)
      \<and> (case resolve s [''dados'', ''midias''] of Some (File c) \<Rightarrow> False | _ \<Rightarrow> True))"

text \<open>An artifact of the removal list can be removed when it is absent or of a
  kind its removal accepts: \<open>fs.unlink\<close> takes a file, \<open>rmdir /s /q\<close> a
  directory, and \<open>fs.rm\<close> with \<open>recursive\<close> and \<open>force\<close> takes both.\<close>

definition removable :: "env \<Rightarrow> node \<Rightarrow> string \<times> item_type \<Rightarrow> bool" where
  "removable env s item =
     (case resolve s [fst item] of
        None \<Rightarrow> True
      | Some (File c) \<Rightarrow> snd item = FileItem \<or> \<not> isWindows env
      | Some (Dir es) \<Rightarrow> snd item = DirItem)"

text \<open>
  A tree fits onto what stands at its destination when copying it there meets
  no file where it has a directory and no directory where it has a file.
  Nothing has to be at the destination.
\<close>

fun fits :: "node \<Rightarrow> node option \<Rightarrow> bool" where
  "fits n None = True"
| "fits (File c) (Some (File d)) = True"
| "fits (File c) (Some (Dir ds)) = False"
| "fits (Dir es) (Some (File d)) = False"
| "fits (Dir es) (Some (Dir ds)) = list_all (\<lambda>e. fits (snd e) (map_of ds (fst e))) es"

text \<open>What the snapshot holds below its \<open>dados\<close> directory.\<close>

definition kept_of :: "node \<Rightarrow> node" where
  "kept_of s =
     Dir [(''database'',
           case resolve s [''dados'', ''database''] of None \<Rightarrow> Dir [] | Some n \<Rightarrow> n),
          (''src'',
           Dir (case resolve s [''dados'', ''src'', ''config.json''] of
                  None \<Rightarrow> []
                | Some n \<Rightarrow> [(''config.json'', n)])),
          (''midias'',
           case resolve s [''dados'', ''midias''] of None \<Rightarrow> Dir [] | Some n \<Rightarrow> n)]"

text \<open>
  A fetched tree can be staged and applied from the staging directory when it
  is a well-formed directory, its \<open>README.md\<close>, which \<open>downloadUpdate\<close>
  unlinks, is not a directory, and none of its top-level entries has the name
  of the staging directory or of the snapshot.
\<close>

definition stageable :: "env \<Rightarrow> node \<Rightarrow> bool" where
  "stageable env t =
     (isDirectory t \<and> wf_node t
      \<and> (case resolve t [''README.md''] of Some (Dir es) \<Rightarrow> False | _ \<Rightarrow> True)
      \<and> resolve t TEMP_DIR = None \<and> resolve t (BACKUP_DIR env) = None)"

text \<open>
  The fetched tree fits the live tree when each of its top-level entries fits
  what \<open>cleanOldFiles\<close> leaves under that name: nothing for the artifacts of
  the removal list, the emptied directory for \<open>dados\<close>, and for every other
  name what the live tree has there.
\<close>

definition fits_live :: "node \<Rightarrow> node \<Rightarrow> bool" where
  "fits_live t s =
     (case t of
        File c \<Rightarrow> False
      | Dir ts \<Rightarrow>
          list_all
            (\<lambda>e. fst e \<in> set (map fst itemsToDelete)
                 \<or> (if fst e = ''dados'' then isDirectory (snd e)
                     else fits (snd e) (resolve s [fst e])))
            ts)"

text \<open>
  The trees the update is meant for: \<open>createBackup\<close> can make a new snapshot,
  a staging directory left by an earlier run can be removed, the artifacts of
  the removal list can be removed, the fetched tree can be staged, and neither
  the fetched tree on the cleaned live tree nor the snapshot on the fetched
  \<open>dados\<close> meets an entry of the other kind.
\<close>

definition update_ready :: "env \<Rightarrow> node \<Rightarrow> node \<Rightarrow> bool" where
  "update_ready env s t =
     (backup_ready s \<and> resolve s (BACKUP_DIR env) = None
      \<and> (case resolve s TEMP_DIR of Some (File c) \<Rightarrow> \<not> isWindows env | _ \<Rightarrow> True)
      \<and> list_all (removable env s) itemsToDelete
      \<and> stageable env t \<and> fits_live t s \<and> fits (kept_of s) (resolve t [''dados'']))"

text \<open>Deleting the three configured paths from the live tree.\<close>

definition deleteLivePaths :: "node \<Rightarrow> node" where
  "deleteLivePaths s =
     rm [''dados'', ''midias''] (rm [''dados'', ''src'', ''config.json''] (rm [''dados'', ''database''] s))"

subsection \<open>Example runs\<close>

text \<open>Environments and trees on which the statements below are tried.\<close>

definition quiet_install :: "node \<Rightarrow> error option \<times> node" where
  "quiet_install s = (None, s)"

definition failing_install :: "node \<Rightarrow> error option \<times> node" where
  "failing_install s = (Some EInstall, s)"

definition env_ok :: env where
  "env_ok =
     \<lparr>isWindows = False, startedAt = ''2025-01-02T03:04:05.678Z'',
      gitFound = True, npmFound = True,
      gitClone = Cloned (Dir [(''index.js'', File ''new''), (''README.md'', File ''readme'')]),
      pingOk = True, npmInstall = quiet_install,
      commitsApi = Response True 200 (Some ''5''),
      updateSave = [''dados'', ''database'', ''updateSave.json''],
      signalAt = None\<rparr>"

definition env_offline :: env where
  "env_offline = env_ok\<lparr>gitClone := CloneFailed EClone None, pingOk := False\<rparr>"

definition env_install_fails :: env where
  "env_install_fails = env_ok\<lparr>npmInstall := failing_install\<rparr>"

definition env_rate_limited :: env where
  "env_rate_limited = env_ok\<lparr>commitsApi := Response False 403 None\<rparr>"


definition installed :: world where
  \<open>installed =
     \<lparr>disk =
        Dir [(''dados'',
              Dir [(''database'', Dir [(''db.json'', File ''{"v":1}'')]),
                   (''src'', Dir [(''config.json'', File ''{"prefixo":"!"}'')])]),
             (''package.json'', File ''{}''),
             (''.git'', Dir [])],
      console = []\<rparr>\<close>

definition user_data :: node where
  \<open>user_data =
     Dir [(''database'', Dir [(''db.json'', File ''{"v":1}'')]),
          (''src'', Dir [(''config.json'', File ''{"prefixo":"!"}'')])]\<close>

definition snapshot_of_installed :: node where
  \<open>snapshot_of_installed =
     Dir [(''dados'',
           Dir [(''database'', Dir [(''db.json'', File ''{"v":1}'')]),
                (''src'', Dir [(''config.json'', File ''{"prefixo":"!"}'')]),
                (''midias'', Dir [])])]\<close>

definition backed_up :: world where
  "backed_up =
     \<lparr>disk =
        Dir [(''dados'', user_data), (''package.json'', File ''{}''), (''.git'', Dir []),
             (''backup_2025-01-02_03_04_05_678Z'', snapshot_of_installed)],
      console =
        [Begin CheckRequirements, Succeeded CheckRequirements, Progress 1 9,
         Begin ConfirmUpdate, Succeeded ConfirmUpdate, Progress 2 9,
         Begin CreateBackup, Succeeded CreateBackup, Progress 3 9]\<rparr>"

definition clone_failed :: world where
  "clone_failed =
     backed_up\<lparr>console := console backed_up @
        [Begin DownloadUpdate, Failed DownloadUpdate EClone, Diagnosis False]\<rparr>"

definition with_artifacts :: world where
  \<open>with_artifacts =
     \<lparr>disk =
        Dir [(''dados'', user_data),
             (''.git'', Dir [(''HEAD'', File ''ref: refs/heads/main'')]),
             (''.github'', Dir [(''workflows'', Dir [])]),
             (''.npm'', Dir []),
             (''node_modules'', Dir [(''baileys'', Dir [(''index.js'', File ''lib'')])]),
             (''package.json'', File ''{}''),
             (''package-lock.json'', File ''{}''),
             (''README.md'', File ''readme''),
             (''index.js'', File ''old''),
             (''backup_2025-01-02_03_04_05_678Z'', snapshot_of_installed)],
      console = []\<rparr>\<close>

definition odd_kinds :: world where
  \<open>odd_kinds =
     \<lparr>disk =
        Dir [(''dados'', user_data),
             (''package.json'', Dir []),
             (''README.md'', File ''readme''),
             (''backup_2025-01-02_03_04_05_678Z'', snapshot_of_installed)],
      console = []\<rparr>\<close>

definition bare :: world where
  "bare = \<lparr>disk = Dir [], console = []\<rparr>"

definition env_clash :: env where
  "env_clash =
     env_ok\<lparr>gitClone :=
       Cloned (Dir [(''dados'',
                     Dir [(''database'', Dir [(''db.json'', Dir [(''part1'', File ''x'')])])])])\<rparr>"

definition env_dados_file :: env where
  "env_dados_file = env_ok\<lparr>gitClone := Cloned (Dir [(''dados'', File ''x'')])\<rparr>"

definition in_service :: world where
  \<open>in_service =
     \<lparr>disk =
        Dir [(''dados'',
              Dir [(''database'',
                    Dir [(''db.json'', File ''{"v":1}''),
                         (''grupos'', Dir [(''g1.json'', File ''[]'')])]),
                   (''src'',
                    Dir [(''config.json'', File ''{"prefixo":"!"}''),
                         (''connect.js'', File ''old code'')]),
                   (''midias'', Dir [(''menu.jpg'', File ''JPG'')])]),
             (''assets'', Dir [(''old.png'', File ''PNG'')]),
             (''index.js'', File ''old''),
             (''package.json'', File ''{}''),
             (''node_modules'', Dir [(''baileys'', Dir [(''index.js'', File ''lib'')])]),
             (''.git'', Dir [(''HEAD'', File ''ref: refs/heads/main'')])],
      console = []\<rparr>\<close>

definition new_release :: node where
  \<open>new_release =
     Dir [(''README.md'', File ''readme''),
          (''index.js'', File ''new''),
          (''package.json'', File ''{"version":"2"}''),
          (''assets'', Dir [(''logo.png'', File ''PNG2'')]),
          (''dados'',
           Dir [(''database'', Dir [(''db.json'', File ''{"v":2}'')]),
                (''src'',
                 Dir [(''config.json'', File ''{"prefixo":"#"}''),
                      (''connect.js'', File ''new code'')])])]\<close>

definition env_new_release :: env where
  "env_new_release = env_ok\<lparr>gitClone := Cloned new_release\<rparr>"

definition full_data :: world where
  \<open>full_data =
     \<lparr>disk =
        Dir [(''dados'',
              Dir [(''database'',
                    Dir [(''db.json'', File ''{"v":1}''),
                         (''grupos'', Dir [(''g1.json'', File ''[]''), (''vazio'', Dir [])])]),
                   (''src'',
                    Dir [(''config.json'', File ''{"prefixo":"!"}''), (''connect.js'', File ''code'')]),
                   (''midias'', Dir [(''menu.jpg'', File ''JPG'')])]),
             (''package.json'', File ''{}'')],
      console = []\<rparr>\<close>

section \<open>The orchestrator\<close>

lemma begun_append: "begun (xs @ ys) = begun xs @ begun ys"
  by (induction xs rule: begun.induct) simp_all

lemma length_steps: "length (steps env) = 9"
  by (simp add: steps_def)

lemma runSteps_append:
  "runSteps (xs @ ys) c t w =
     (case runSteps xs c t w of
        None \<Rightarrow> None
      | Some (r, w1) \<Rightarrow>
          (case r of
             Done \<Rightarrow> runSteps ys (c + length xs) t w1
           | Raise e \<Rightarrow> Some (Raise e, w1)
           | Exited n \<Rightarrow> Some (Exited n, w1)))"
proof (induction xs arbitrary: c w)
  case Nil
  then show ?case by simp
next
  case (Cons f xs)
  show ?case
  proof (cases "f w")
    case None
    then show ?thesis by simp
  next
    case (Some a)
    obtain r w1 where a: "a = (r, w1)" by (cases a)
    show ?thesis
      using Some a Cons.IH [of "Suc c"]
      by (cases r) (simp_all split: option.splits prod.splits outcome.splits)
  qed
qed

lemma runSteps_snoc_fail:
  assumes "runSteps xs c t w = Some (Done, wk)"
    and "f wk = Some (r, wz)" and "r \<noteq> Done"
  shows "runSteps (xs @ f # ys) c t w = Some (r, wz)"
  using assms by (cases r) (simp_all add: runSteps_append)

lemma attempt_cases:
  assumes "attempt sid diag body w = Some (r, w')"
  obtains (ok) s where "body (disk w) = Some (None, s)" "r = Done"
      "w' = \<lparr>disk = s, console = console w @ [Begin sid, Succeeded sid]\<rparr>"
    | (err) e s where "body (disk w) = Some (Some e, s)" "r = Raise e"
      "w' = \<lparr>disk = s, console = console w @ [Begin sid, Failed sid e] @ diag\<rparr>"
  using assms unfolding attempt_def
  by (auto split: option.splits prod.splits)

lemma attempt_begun:
  assumes "attempt sid diag body w = Some (r, w')" and "begun diag = []"
  shows "begun (console w') = begun (console w) @ [sid]"
  using assms(1)
  by (cases rule: attempt_cases) (simp_all add: begun_append assms(2))

lemma attempt_not_exited: "attempt sid diag body w = Some (r, w') \<Longrightarrow> r \<noteq> Exited c"
  by (erule attempt_cases) simp_all

lemma nth_cases9:
  assumes "k < 9"
  obtains "k = 0" | "k = 1" | "k = 2" | "k = 3" | "k = 4" | "k = 5" | "k = 6" | "k = 7" | "k = (8::nat)"
  using assms by arith

lemma step_begun:
  assumes "k < 9" and "(steps env ! k) w = Some (r, w')"
  shows "begun (console w') = begun (console w) @ [step_ids ! k]"
  using assms(1)
proof (cases rule: nth_cases9)
  case 1
  then show ?thesis using assms(2)
    by (auto simp: steps_def step_ids_def checkRequirements_def say_def begun_append split: if_splits)
next
  case 2
  then show ?thesis using assms(2)
    by (auto simp: steps_def step_ids_def confirmUpdate_def say_def begun_append)
next
  case 3
  then show ?thesis using assms(2) attempt_begun [of CreateBackup "[]" _ w r w']
    by (simp add: steps_def step_ids_def createBackup_def)
next
  case 4
  then show ?thesis using assms(2) attempt_begun [of DownloadUpdate "[Diagnosis (pingOk env)]" _ w r w']
    by (simp add: steps_def step_ids_def downloadUpdate_def)
next
  case 5
  then show ?thesis using assms(2) attempt_begun [of CleanOldFiles "[]" _ w r w']
    by (simp add: steps_def step_ids_def cleanOldFiles_def)
next
  case 6
  then show ?thesis using assms(2) attempt_begun [of ApplyUpdate "[]" _ w r w']
    by (simp add: steps_def step_ids_def applyUpdate_def)
next
  case 7
  then show ?thesis using assms(2) attempt_begun [of RestoreBackup "[]" _ w r w']
    by (simp add: steps_def step_ids_def restoreBackup_def)
next
  case 8
  then show ?thesis using assms(2) attempt_begun [of InstallDependencies "[]" _ w r w']
    by (simp add: steps_def step_ids_def installDependencies_def)
next
  case 9
  then show ?thesis using assms(2)
    by (auto simp: steps_def step_ids_def cleanup_def say_def begun_append
          split: if_splits sum.splits)
qed

lemma step_exit_code:
  assumes "k < 9" and "(steps env ! k) w = Some (Exited c, w')"
  shows "c = 1"
  using assms(1)
proof (cases rule: nth_cases9)
  case 1
  then show ?thesis using assms(2)
    by (auto simp: steps_def checkRequirements_def split: if_splits)
next
  case 2
  then show ?thesis using assms(2) by (auto simp: steps_def confirmUpdate_def)
next
  case 3
  then show ?thesis using assms(2)
    by (auto simp: steps_def createBackup_def dest: attempt_not_exited)
next
  case 4
  then show ?thesis using assms(2)
    by (auto simp: steps_def downloadUpdate_def dest: attempt_not_exited)
next
  case 5
  then show ?thesis using assms(2)
    by (auto simp: steps_def cleanOldFiles_def dest: attempt_not_exited)
next
  case 6
  then show ?thesis using assms(2)
    by (auto simp: steps_def applyUpdate_def dest: attempt_not_exited)
next
  case 7
  then show ?thesis using assms(2)
    by (auto simp: steps_def restoreBackup_def dest: attempt_not_exited)
next
  case 8
  then show ?thesis using assms(2)
    by (auto simp: steps_def installDependencies_def dest: attempt_not_exited)
next
  case 9
  then show ?thesis using assms(2)
    by (auto simp: steps_def cleanup_def split: if_splits sum.splits)
qed

lemma runSteps_take_Suc:
  assumes "k < length fs"
  shows "runSteps (take (Suc k) fs) c t w =
     (case runSteps (take k fs) c t w of
        None \<Rightarrow> None
      | Some (r, w1) \<Rightarrow>
          (case r of
             Done \<Rightarrow> runSteps [fs ! k] (c + k) t w1
           | Raise e \<Rightarrow> Some (Raise e, w1)
           | Exited n \<Rightarrow> Some (Exited n, w1)))"
  using assms
  by (simp add: take_Suc_conv_app_nth runSteps_append min_def
        split: option.splits prod.splits outcome.splits)

lemma runSteps_begun:
  "k \<le> 9 \<Longrightarrow> runSteps (take k (steps env)) 0 t w = Some (Done, wk) \<Longrightarrow>
   begun (console wk) = begun (console w) @ take k step_ids"
proof (induction k arbitrary: wk)
  case 0
  then show ?case by simp
next
  case (Suc k)
  have k: "k < 9" using Suc.prems(1) by simp
  have kl: "k < length (steps env)" using k by (simp add: length_steps)
  from Suc.prems(2) obtain w1 w2 where
    a: "runSteps (take k (steps env)) 0 t w = Some (Done, w1)" and
    b: "(steps env ! k) w1 = Some (Done, w2)" and
    c: "wk = say [Progress (Suc k) t] w2"
    unfolding runSteps_take_Suc [OF kl]
    by (auto split: option.splits prod.splits outcome.splits)
  have "begun (console w1) = begun (console w) @ take k step_ids"
    using Suc.IH [OF _ a] k by simp
  moreover have "begun (console w2) = begun (console w1) @ [step_ids ! k]"
    using step_begun [OF k b] .
  moreover have "take (Suc k) step_ids = take k step_ids @ [step_ids ! k]"
    using k take_Suc_conv_app_nth [of k step_ids] by (simp add: step_ids_def)
  ultimately show ?case
    using c by (simp add: say_def begun_append)
qed

lemma runSteps_take_abort:
  assumes "k < 9" and "k < j"
    and "runSteps (take k (steps env)) 0 9 w = Some (Done, wk)"
    and "(steps env ! k) wk = Some (r, wz)" and "r \<noteq> Done"
  shows "runSteps (take j (steps env)) 0 9 w = Some (r, wz)"
proof -
  have "k < length (take j (steps env))"
    using assms(1,2) by (simp add: length_steps)
  then have "take j (steps env) =
      take k (take j (steps env)) @ (take j (steps env) ! k) # drop (Suc k) (take j (steps env))"
    by (rule id_take_nth_drop)
  then have "take j (steps env) =
      take k (steps env) @ (steps env ! k) # drop (Suc k) (take j (steps env))"
    using assms(2) by (simp add: min_def)
  then show ?thesis
    using runSteps_snoc_fail [of "take k (steps env)" 0 9 w wk "steps env ! k" r wz
        "drop (Suc k) (take j (steps env))"] assms(3,4,5) by simp
qed

lemma main_try_abort:
  assumes "k < 9"
    and "\<forall>j. signalAt env = Some j \<longrightarrow> k < j"
    and "runSteps (take k (steps env)) 0 9 w = Some (Done, wk)"
    and "(steps env ! k) wk = Some (r, wz)" and "r \<noteq> Done"
  shows "main_try env w = Some (r, wz)"
proof (cases "signalAt env")
  case None
  have "runSteps (take 9 (steps env)) 0 9 w = Some (r, wz)"
    using runSteps_take_abort [OF assms(1) assms(1) assms(3,4,5)] .
  then have "runSteps (steps env) 0 9 w = Some (r, wz)"
    by (simp add: length_steps)
  then show ?thesis
    using None assms(5) by (cases r) (simp_all add: main_try_def length_steps)
next
  case (Some j)
  then have "k < j" using assms(2) by simp
  then have "runSteps (take j (steps env)) 0 9 w = Some (r, wz)"
    using runSteps_take_abort [OF assms(1) _ assms(3,4,5)] by simp
  then show ?thesis
    using Some assms(5) by (cases r) (simp_all add: main_try_def length_steps)
qed

lemma main_abort:
  assumes "k < 9"
    and "\<forall>j. signalAt env = Some j \<longrightarrow> k < j"
    and "runSteps (take k (steps env)) 0 9 w = Some (Done, wk)"
    and "(steps env ! k) wk = Some (r, wz)" and "r \<noteq> Done"
  shows "main env w =
     Some (case r of
             Raise e \<Rightarrow> (1, say [UpdateError e, BackupAvailable (BACKUP_DIR env)] wz)
           | Exited c \<Rightarrow> (c, wz)
           | Done \<Rightarrow> (0, wz))"
  using main_try_abort [OF assms] assms(5)
  by (cases r) (simp_all add: main_def)

text \<open>
  Claim C5 (sequential abort). If step \<open>k\<close> of the nine fails after the steps
  before it succeeded, and the operator did not interrupt the run before that,
  \<open>main\<close> returns with an exit code that is not zero; the
  tree is the one the failing step left (nothing is undone, nothing runs after
  it); the call-order log holds the steps up to \<open>k\<close>, each once, and no later
  one; and the result is the same whatever stands in place of the later steps.
\<close>

theorem sequential_abort:
  assumes "k < length (steps env)"
    and "\<forall>j. signalAt env = Some j \<longrightarrow> k < j"
    and "runSteps (take k (steps env)) 0 (length (steps env)) w = Some (Done, wk)"
    and "(steps env ! k) wk = Some (r, wz)"
    and "r \<noteq> Done"
  shows "\<exists>code w'. main env w = Some (code, w') \<and> code \<noteq> 0 \<and> disk w' = disk wz
      \<and> begun (console w') = begun (console w) @ take (Suc k) step_ids
      \<and> (\<forall>others.
            runSteps (take (Suc k) (steps env) @ others) 0 (length (steps env)) w = Some (r, wz))"
proof -
  have k: "k < 9" using assms(1) by (simp add: length_steps)
  have run: "runSteps (take k (steps env)) 0 9 w = Some (Done, wk)"
    using assms(3) by (simp add: length_steps)
  have m: "main env w =
     Some (case r of
             Raise e \<Rightarrow> (1, say [UpdateError e, BackupAvailable (BACKUP_DIR env)] wz)
           | Exited c \<Rightarrow> (c, wz)
           | Done \<Rightarrow> (0, wz))"
    using main_abort [OF k assms(2) run assms(4,5)] .
  have b1: "begun (console wk) = begun (console w) @ take k step_ids"
    using runSteps_begun [of k env 9 w wk] k run by simp
  have b2: "begun (console wz) = begun (console wk) @ [step_ids ! k]"
    using step_begun [OF k assms(4)] .
  have t: "take (Suc k) step_ids = take k step_ids @ [step_ids ! k]"
    using k take_Suc_conv_app_nth [of k step_ids] by (simp add: step_ids_def)
  have b: "begun (console wz) = begun (console w) @ take (Suc k) step_ids"
    using b1 b2 t by simp
  have others: "runSteps (take (Suc k) (steps env) @ others) 0 (length (steps env)) w = Some (r, wz)"
    for others
  proof -
    have "take (Suc k) (steps env) @ others = take k (steps env) @ (steps env ! k) # others"
      using assms(1) by (simp add: take_Suc_conv_app_nth)
    then show ?thesis
      using runSteps_snoc_fail [of "take k (steps env)" 0 9 w wk "steps env ! k" r wz others]
        run assms(4,5) by (simp add: length_steps)
  qed
  show ?thesis
  proof (cases r)
    case Done
    then show ?thesis using assms(5) by simp
  next
    case (Raise e)
    then show ?thesis using m b others by (simp add: say_def begun_append)
  next
    case (Exited c)
    then have "c = 1" using step_exit_code [OF k] assms(4) by simp
    then show ?thesis using m b others Exited by simp
  qed
qed

theorem sequential_abort_witness:
  "\<exists>code w'. main env_offline installed = Some (code, w') \<and> code \<noteq> 0
      \<and> disk w' = disk clone_failed
      \<and> begun (console w') = begun (console installed) @ take (Suc 3) step_ids
      \<and> (\<forall>others.
            runSteps (take (Suc 3) (steps env_offline) @ others) 0 (length (steps env_offline))
              installed = Some (Raise EClone, clone_failed))"
proof -
  have h1: "3 < length (steps env_offline)"
    by (simp add: length_steps)
  have h0: "\<forall>j. signalAt env_offline = Some j \<longrightarrow> 3 < j"
    by (simp add: env_offline_def env_ok_def)
  have h2: "runSteps (take 3 (steps env_offline)) 0 (length (steps env_offline)) installed =
      Some (Done, backed_up)"
    by code_simp
  have h3: "(steps env_offline ! 3) backed_up = Some (Raise EClone, clone_failed)"
    by code_simp
  show ?thesis
    using sequential_abort [OF h1 h0 h2 h3] by simp
qed

text \<open>
  Claim C6 says that a failing installer is a soft failure and the run still
  reaches the finalize step. In the run below the installer fails: the run
  ends with exit code 1 and the finalize step is never started.
\<close>

theorem install_failure_counterexample:
  "main env_install_fails installed \<noteq> None
   \<and> fst (the (main env_install_fails installed)) = 1
   \<and> Failed InstallDependencies EInstall \<in> set (console (snd (the (main env_install_fails installed))))
   \<and> Cleanup \<notin> set (begun (console (snd (the (main env_install_fails installed)))))"
  by code_simp

text \<open>
  Claim C6, as amended. When the first seven steps succeed and the installer
  fails, with no interrupt from the operator before that,
  \<open>installDependencies\<close> reports the failure and throws it again:
  \<open>main\<close> exits with code 1, the tree is the one the installer left, the
  handler prints the error and the snapshot location, and the call-order log
  ends with the install step, so the finalize step is never started.
\<close>

theorem install_failure_aborts:
  assumes "runSteps (take 7 (steps env)) 0 (length (steps env)) w = Some (Done, w7)"
    and "npmInstall env (disk w7) = (Some e, s)"
    and "\<forall>j. signalAt env = Some j \<longrightarrow> 7 < j"
  shows "main env w =
      Some (1, \<lparr>disk = s,
                console = console w7 @
                  [Begin InstallDependencies, Failed InstallDependencies e,
                   UpdateError e, BackupAvailable (BACKUP_DIR env)]\<rparr>)
    \<and> begun (console w7 @ [Begin InstallDependencies, Failed InstallDependencies e,
                   UpdateError e, BackupAvailable (BACKUP_DIR env)])
        = begun (console w) @ take 8 step_ids
    \<and> Cleanup \<notin> set (take 8 step_ids)"
proof -
  let ?wz = "\<lparr>disk = s, console = console w7 @ [Begin InstallDependencies, Failed InstallDependencies e]\<rparr>"
  have run: "runSteps (take 7 (steps env)) 0 9 w = Some (Done, w7)"
    using assms(1) by (simp add: length_steps)
  have st: "(steps env ! 7) w7 = Some (Raise e, ?wz)"
    using assms(2) by (simp add: steps_def installDependencies_def attempt_def)
  have m: "main env w = Some (1, say [UpdateError e, BackupAvailable (BACKUP_DIR env)] ?wz)"
    using main_abort [of 7 env w w7 "Raise e" ?wz] run st assms(3) by simp
  have b: "begun (console w7) = begun (console w) @ take 7 step_ids"
    using runSteps_begun [of 7 env 9 w w7] run by simp
  show ?thesis
    using m b by (simp add: say_def begun_append step_ids_def)
qed

theorem install_failure_aborts_witness:
  "main env_install_fails installed =
      Some (1, \<lparr>disk = disk (snd (the (runSteps (take 7 (steps env_install_fails)) 0 9 installed))),
                console = console (snd (the (runSteps (take 7 (steps env_install_fails)) 0 9 installed))) @
                  [Begin InstallDependencies, Failed InstallDependencies EInstall,
                   UpdateError EInstall, BackupAvailable (BACKUP_DIR env_install_fails)]\<rparr>)"
proof -
  let ?w7 = "snd (the (runSteps (take 7 (steps env_install_fails)) 0 9 installed))"
  have h1: "runSteps (take 7 (steps env_install_fails)) 0 (length (steps env_install_fails)) installed
      = Some (Done, ?w7)"
    by code_simp
  have h2: "npmInstall env_install_fails (disk ?w7) = (Some EInstall, disk ?w7)"
    by (simp add: env_install_fails_def env_ok_def failing_install_def)
  have h3: "\<forall>j. signalAt env_install_fails = Some j \<longrightarrow> 7 < j"
    by (simp add: env_install_fails_def env_ok_def)
  show ?thesis
    using install_failure_aborts [OF h1 h2 h3] by simp
qed










section \<open>What a step leaves untouched\<close>

lemma preservesD: "preserves p a \<Longrightarrow> a s = Some (r, s') \<Longrightarrow> resolve s' p = resolve s p"
  by (auto simp: preserves_def)

lemma preserves_skip: "preserves p skip"
  by (simp add: preserves_def skip_def)

lemma preserves_andThen:
  assumes "preserves p a" and "preserves p b"
  shows "preserves p (andThen a b)"
  unfolding preserves_def
proof (intro allI impI)
  fix s r s'
  assume h: "andThen a b s = Some (r, s')"
  show "resolve s' p = resolve s p"
  proof (cases "a s")
    case None
    then show ?thesis using h by (simp add: andThen_def)
  next
    case (Some x)
    obtain r1 s1 where x: "x = (r1, s1)" by (cases x)
    have a1: "resolve s1 p = resolve s p"
      using preservesD [OF assms(1)] Some x by simp
    show ?thesis
    proof (cases r1)
      case None
      then have "b s1 = Some (r, s')" using h Some x by (simp add: andThen_def)
      then show ?thesis using preservesD [OF assms(2)] a1 by simp
    next
      case (Some e)
      then show ?thesis using h \<open>a s = Some x\<close> x a1 by (simp add: andThen_def)
    qed
  qed
qed

lemma preserves_inOrder:
  "(\<And>a. a \<in> set acts \<Longrightarrow> preserves p a) \<Longrightarrow> preserves p (inOrder acts)"
  unfolding inOrder_def
  by (induction acts) (simp_all add: preserves_skip preserves_andThen)

lemma preserves_ifExists: "preserves p a \<Longrightarrow> preserves p (ifExists q a)"
  by (auto simp: preserves_def ifExists_def skip_def)

lemma preserves_io:
  "(\<And>s s'. f s = Inr s' \<Longrightarrow> resolve s' p = resolve s p) \<Longrightarrow> preserves p (io f)"
  by (auto simp: preserves_def io_def split: sum.splits)

lemma resolve_rm_other: "x \<noteq> y \<Longrightarrow> resolve (rm (x # p) s) (y # q) = resolve s (y # q)"
proof (cases s)
  case (File c)
  then show ?thesis by simp
next
  case (Dir es)
  assume xy: "x \<noteq> y"
  show ?thesis
  proof (cases p)
    case Nil
    then show ?thesis using Dir xy by simp
  next
    case (Cons z p')
    then show ?thesis using Dir xy by (simp add: update_conv' split: option.splits)
  qed
qed

lemma resolve_rm_self: "resolve (rm [x] s) [x] = None"
  by (cases s) (simp_all add: delete_conv')

lemma resolve_place_other: "x \<noteq> y \<Longrightarrow> resolve (place x t s) (y # q) = resolve s (y # q)"
  by (cases s) (simp_all add: place_def update_conv')

lemma removeTree_rm: "removeTree env p s = Inr s' \<Longrightarrow> s' = rm p s"
  by (auto simp: removeTree_def rmdir_s_q_def rm_recursive_force_def
        split: if_splits option.splits node.splits)

lemma unlink_rm: "unlink p s = Inr s' \<Longrightarrow> s' = rm p s"
  by (auto simp: unlink_def split: option.splits node.splits)

lemma preserves_removeTree: "x \<noteq> y \<Longrightarrow> preserves (y # q) (io (removeTree env (x # p)))"
  by (rule preserves_io) (auto dest!: removeTree_rm simp: resolve_rm_other simp del: resolve.simps)

lemma preserves_unlink: "x \<noteq> y \<Longrightarrow> preserves (y # q) (io (unlink (x # p)))"
  by (rule preserves_io) (auto dest!: unlink_rm simp: resolve_rm_other simp del: resolve.simps)

lemma preserves_git_clone: "y \<noteq> ''temp_richbess'' \<Longrightarrow> preserves (y # q) (git_clone env)"
  by (auto simp: preserves_def git_clone_def resolve_place_other simp del: resolve.simps
        split: clone_result.splits option.splits)

lemma preserves_downloadUpdate_body:
  assumes "y \<noteq> ''temp_richbess''"
  shows "preserves (y # q) (downloadUpdate_body env)"
  unfolding downloadUpdate_body_def TEMP_DIR_def
  using assms
  by (intro preserves_inOrder)
    (auto intro!: preserves_ifExists preserves_removeTree preserves_unlink preserves_git_clone)

lemma attempt_disk:
  assumes "attempt sid diag body w = Some (r, w')"
  shows "\<exists>r'. body (disk w) = Some (r', disk w')"
  using assms by (cases rule: attempt_cases) auto

lemma backup_name_head: "\<exists>cs. backup_name stamp = CHR ''b'' # cs"
  by (simp add: backup_name_def)

lemma BACKUP_DIR_eq: "BACKUP_DIR env = [backup_name (startedAt env)]"
  by (simp add: BACKUP_DIR_def)

lemma backup_name_not_temp: "backup_name stamp \<noteq> ''temp_richbess''"
  by (simp add: backup_name_def)

lemma downloadUpdate_total: "downloadUpdate env w \<noteq> None"
  by (auto simp: downloadUpdate_def attempt_def downloadUpdate_body_def inOrder_def andThen_def
        ifExists_def io_def skip_def git_clone_def
        split: option.splits prod.splits sum.splits clone_result.splits)

text \<open>
  Claim C9 (fetch isolation). When \<open>downloadUpdate\<close> fails, whatever the
  reason (the old staging directory cannot be removed, the clone fails, the
  readme of the fetched tree cannot be unlinked), every path outside the
  staging directory \<open>temp_richbess\<close> resolves as it did before, and so does
  every path of the snapshot.
\<close>

theorem fetch_isolation:
  assumes "downloadUpdate env w = Some (Raise e, w')"
  shows "(\<forall>x q. x \<noteq> ''temp_richbess'' \<longrightarrow> resolve (disk w') (x # q) = resolve (disk w) (x # q))
    \<and> (\<forall>q. resolve (disk w') (BACKUP_DIR env @ q) = resolve (disk w) (BACKUP_DIR env @ q))"
proof -
  obtain r' where b: "downloadUpdate_body env (disk w) = Some (r', disk w')"
    using attempt_disk assms unfolding downloadUpdate_def by blast
  have a: "resolve (disk w') (x # q) = resolve (disk w) (x # q)" if "x \<noteq> ''temp_richbess''" for x q
    using preservesD [OF preserves_downloadUpdate_body [OF that] b] .
  then show ?thesis
    by (simp add: BACKUP_DIR_eq backup_name_not_temp)
qed

theorem fetch_isolation_witness:
  "(\<forall>q. resolve (disk clone_failed) (''dados'' # q) = resolve (disk backed_up) (''dados'' # q))
    \<and> (\<forall>q. resolve (disk clone_failed) (BACKUP_DIR env_offline @ q)
           = resolve (disk backed_up) (BACKUP_DIR env_offline @ q))"
proof -
  have h: "downloadUpdate env_offline backed_up = Some (Raise EClone, clone_failed)"
    by code_simp
  show ?thesis
    using fetch_isolation [OF h] by simp
qed

lemma cleanEntries_preserves:
  "x \<noteq> y \<Longrightarrow> cleanEntries env (x # p) excl files s = (r, s') \<Longrightarrow>
   resolve s' (y # q) = resolve s (y # q)"
proof (induction files arbitrary: s)
  case Nil
  then show ?case by simp
next
  case (Cons f files)
  show ?case
  proof (cases "(x # p) @ [f] = excl")
    case True
    then show ?thesis using Cons by simp
  next
    case ne: False
    show ?thesis
    proof (cases "stat ((x # p) @ [f]) s")
      case (Inl e)
      then show ?thesis using Cons.prems ne by simp
    next
      case (Inr stats)
      show ?thesis
      proof (cases "if isDirectory stats then removeTree env ((x # p) @ [f]) s
                    else unlink ((x # p) @ [f]) s")
        case (Inl e)
        then show ?thesis using Cons.prems ne Inr by simp
      next
        case inr: (Inr s1)
        then have "s1 = rm (x # (p @ [f])) s"
          by (auto dest: removeTree_rm unlink_rm split: if_splits)
        then have a: "resolve s1 (y # q) = resolve s (y # q)"
          using Cons.prems(1) by (simp add: resolve_rm_other del: resolve.simps)
        have "cleanEntries env (x # p) excl files s1 = (r, s')"
          using Cons.prems(2) ne Inr inr by simp
        then show ?thesis using Cons.IH [OF Cons.prems(1)] a by simp
      qed
    qed
  qed
qed

lemma preserves_cleanDirectoryAsync:
  "x \<noteq> y \<Longrightarrow> preserves (y # q) (cleanDirectoryAsync env (x # p) excl)"
  unfolding preserves_def cleanDirectoryAsync_def
  by (auto split: sum.splits dest: cleanEntries_preserves)

lemma preserves_deleteItem: "fst item \<noteq> y \<Longrightarrow> preserves (y # q) (deleteItem env item)"
  unfolding deleteItem_def
  by (cases "snd item") (auto intro!: preserves_ifExists preserves_removeTree preserves_unlink)

lemma preserves_inOrder_deleteItem:
  "(\<And>item. item \<in> set items \<Longrightarrow> fst item \<noteq> y) \<Longrightarrow>
   preserves (y # q) (inOrder (map (deleteItem env) items))"
  by (rule preserves_inOrder) (auto intro: preserves_deleteItem)

lemma backup_name_not_item: "item \<in> set itemsToDelete \<Longrightarrow> fst item \<noteq> backup_name stamp"
  by (auto simp: itemsToDelete_def backup_name_def)

lemma backup_name_not_dados: "''dados'' \<noteq> backup_name stamp"
  by (simp add: backup_name_def)

lemma dados_not_item: "item \<in> set itemsToDelete \<Longrightarrow> fst item \<noteq> ''dados''"
  by (auto simp: itemsToDelete_def)

lemma preserves_cleanOldFiles_body_backup:
  "preserves (backup_name (startedAt env) # q) (cleanOldFiles_body env)"
  unfolding cleanOldFiles_body_def
  by (intro preserves_andThen preserves_inOrder_deleteItem preserves_ifExists
        preserves_cleanDirectoryAsync backup_name_not_item backup_name_not_dados)

lemma cleanOldFiles_total: "cleanOldFiles env w \<noteq> None"
proof -
  have a: "inOrder (map (deleteItem env) items) s \<noteq> None" for items s
    unfolding inOrder_def
  proof (induction items arbitrary: s)
    case Nil
    then show ?case by (simp add: skip_def)
  next
    case (Cons i items)
    show ?case
      using Cons.IH
      by (auto simp: andThen_def deleteItem_def ifExists_def io_def skip_def
            split: option.splits prod.splits sum.splits)
  qed
  have "cleanOldFiles_body env s \<noteq> None" for s
    using a [of itemsToDelete s]
    by (auto simp: cleanOldFiles_body_def andThen_def ifExists_def skip_def
          cleanDirectoryAsync_def split: option.splits prod.splits sum.splits)
  then show ?thesis
    by (auto simp: cleanOldFiles_def attempt_def split: option.splits prod.splits)
qed

lemma deleteItem_absent:
  assumes "deleteItem env item s = Some (None, s')"
  shows "resolve s' [fst item] = None"
proof (cases "existsSync [fst item] s")
  case False
  then show ?thesis using assms by (simp add: deleteItem_def ifExists_def skip_def existsSync_def)
next
  case True
  then have "s' = rm [fst item] s"
    using assms
    by (cases "snd item")
      (auto simp: deleteItem_def ifExists_def io_def split: sum.splits
         dest: removeTree_rm unlink_rm)
  then show ?thesis by (simp add: resolve_rm_self del: resolve.simps)
qed

lemma deleteItem_keeps_absent:
  assumes "deleteItem env item s = Some (r, s')" and "resolve s [n] = None"
  shows "resolve s' [n] = None"
proof (cases "fst item = n")
  case True
  then show ?thesis
    using assms by (simp add: deleteItem_def ifExists_def skip_def existsSync_def)
next
  case False
  then show ?thesis
    using preservesD [OF preserves_deleteItem [of item n "[]" env] assms(1)] assms(2) by simp
qed

lemma deleteItems_keep_absent:
  "inOrder (map (deleteItem env) items) s = Some (r, s') \<Longrightarrow> resolve s [n] = None \<Longrightarrow>
   resolve s' [n] = None"
proof (induction items arbitrary: s)
  case Nil
  then show ?case by (simp add: inOrder_def skip_def)
next
  case (Cons i items)
  from Cons.prems(1) obtain r1 s1 where
    a: "deleteItem env i s = Some (r1, s1)" and
    b: "(r1 \<noteq> None \<and> s' = s1) \<or> (r1 = None \<and> inOrder (map (deleteItem env) items) s1 = Some (r, s'))"
    by (auto simp: inOrder_def andThen_def split: option.splits prod.splits)
  have "resolve s1 [n] = None"
    using deleteItem_keeps_absent [OF a Cons.prems(2)] .
  then show ?case using b Cons.IH by auto
qed

lemma deleteItems_absent:
  "inOrder (map (deleteItem env) items) s = Some (None, s') \<Longrightarrow> item \<in> set items \<Longrightarrow>
   resolve s' [fst item] = None"
proof (induction items arbitrary: s)
  case Nil
  then show ?case by simp
next
  case (Cons i items)
  from Cons.prems(1) obtain s1 where
    a: "deleteItem env i s = Some (None, s1)" and
    b: "inOrder (map (deleteItem env) items) s1 = Some (None, s')"
    by (auto simp: inOrder_def andThen_def split: option.splits prod.splits)
  show ?case
  proof (cases "item = i")
    case True
    then show ?thesis
      using deleteItems_keep_absent [OF b deleteItem_absent [OF a]] by simp
  next
    case False
    then show ?thesis using Cons.IH [OF b] Cons.prems(2) by simp
  qed
qed

lemma fold_delete_all:
  "set (map fst ds) \<subseteq> set names \<Longrightarrow> fold AList.delete names ds = []"
proof (induction names arbitrary: ds)
  case Nil
  then show ?case by simp
next
  case (Cons n names)
  have "set (map fst (AList.delete n ds)) \<subseteq> set names"
    using Cons.prems by (auto simp: delete_keys)
  then show ?case using Cons.IH by simp
qed

lemma resolve_rm_child:
  assumes "resolve s [d] = Some (Dir ds)"
  shows "resolve (rm [d, f] s) [d] = Some (Dir (AList.delete f ds))"
proof (cases s)
  case (File c)
  then show ?thesis using assms by simp
next
  case (Dir es)
  then show ?thesis using assms by (simp add: update_conv' split: option.splits)
qed

lemma cleanEntries_children:
  "cleanEntries env [d] excl files s = (None, s') \<Longrightarrow> (\<And>f. [d, f] \<noteq> excl) \<Longrightarrow>
   resolve s [d] = Some (Dir ds) \<Longrightarrow>
   resolve s' [d] = Some (Dir (fold AList.delete files ds))"
proof (induction files arbitrary: s ds)
  case Nil
  then show ?case by simp
next
  case (Cons f files)
  have ne: "[d] @ [f] \<noteq> excl" using Cons.prems(2) [of f] by simp
  show ?case
  proof (cases "stat ([d] @ [f]) s")
    case (Inl e)
    then show ?thesis using Cons.prems(1) ne by simp
  next
    case (Inr stats)
    show ?thesis
    proof (cases "if isDirectory stats then removeTree env ([d] @ [f]) s
                  else unlink ([d] @ [f]) s")
      case (Inl e)
      then show ?thesis using Cons.prems(1) ne Inr by simp
    next
      case inr: (Inr s1)
      then have "s1 = rm [d, f] s"
        by (auto dest: removeTree_rm unlink_rm split: if_splits)
      then have a: "resolve s1 [d] = Some (Dir (AList.delete f ds))"
        using resolve_rm_child [OF Cons.prems(3)] by simp
      have "cleanEntries env [d] excl files s1 = (None, s')"
        using Cons.prems(1) ne Inr inr by simp
      then show ?thesis using Cons.IH [OF _ Cons.prems(2) a] by simp
    qed
  qed
qed

lemma exclusion_never_matches: "[''dados'', file] \<noteq> BACKUP_DIR env"
  by (simp add: BACKUP_DIR_def)

lemma rm_absent: "resolve s [x] = None \<Longrightarrow> rm [x] s = s"
proof (cases s)
  case (File c)
  then show ?thesis by simp
next
  case (Dir es)
  assume "resolve s [x] = None"
  then have "map_of es x = None" using Dir by (simp split: option.splits)
  then have "x \<notin> fst ` set es" by (simp add: map_of_eq_None_iff)
  then show ?thesis using Dir by simp
qed

lemma deleteItem_ok:
  assumes "removable env s item"
  shows "deleteItem env item s = Some (None, rm [fst item] s)"
proof (cases "resolve s [fst item]")
  case None
  then show ?thesis
    using rm_absent [OF None]
    by (simp add: deleteItem_def ifExists_def existsSync_def skip_def del: resolve.simps rm.simps)
next
  case (Some n)
  show ?thesis
  proof (cases n)
    case (File c)
    then show ?thesis
      using assms Some
      by (cases "snd item")
        (simp_all add: removable_def deleteItem_def ifExists_def existsSync_def io_def
           removeTree_def rm_recursive_force_def unlink_def del: resolve.simps rm.simps)
  next
    case (Dir es)
    then show ?thesis
      using assms Some
      by (cases "snd item")
        (simp_all add: removable_def deleteItem_def ifExists_def existsSync_def io_def
           removeTree_def rm_recursive_force_def rmdir_s_q_def del: resolve.simps rm.simps)
  qed
qed

lemma removable_rm: "removable env s item \<Longrightarrow> removable env (rm [x] s) item"
proof (cases "fst item = x")
  case True
  then show ?thesis by (simp add: removable_def resolve_rm_self del: resolve.simps rm.simps)
next
  case False
  assume "removable env s item"
  then show ?thesis
    using resolve_rm_other [of x "fst item" "[]" s "[]"] False
    by (simp add: removable_def del: resolve.simps rm.simps)
qed

lemma deleteItems_ok:
  "list_all (removable env s) items \<Longrightarrow>
   \<exists>s'. inOrder (map (deleteItem env) items) s = Some (None, s')"
proof (induction items arbitrary: s)
  case Nil
  then show ?case by (simp add: inOrder_def skip_def)
next
  case (Cons i items)
  have a: "deleteItem env i s = Some (None, rm [fst i] s)"
    using Cons.prems deleteItem_ok by simp
  have "list_all (removable env (rm [fst i] s)) items"
    using Cons.prems by (simp add: list_all_iff removable_rm del: rm.simps)
  then obtain s' where "inOrder (map (deleteItem env) items) (rm [fst i] s) = Some (None, s')"
    using Cons.IH by blast
  then show ?case
    using a by (simp add: inOrder_def andThen_def del: rm.simps)
qed


lemma resolve_child:
  "resolve s [d] = Some (Dir ds) \<Longrightarrow> resolve s [d, f] = map_of ds f"
  by (cases s) (auto split: option.splits)

lemma cleanEntries_ok:
  "resolve s [d] = Some (Dir ds) \<Longrightarrow> distinct files \<Longrightarrow> set files \<subseteq> fst ` set ds \<Longrightarrow>
   (\<And>f. [d, f] \<noteq> excl) \<Longrightarrow> \<exists>s'. cleanEntries env [d] excl files s = (None, s')"
proof (induction files arbitrary: s ds)
  case Nil
  then show ?case by simp
next
  case (Cons f files)
  have ne: "[d] @ [f] \<noteq> excl" using Cons.prems(4) [of f] by simp
  have "f \<in> fst ` set ds" using Cons.prems(3) by simp
  then obtain n where n: "map_of ds f = Some n"
    by (cases "map_of ds f") (auto simp: map_of_eq_None_iff)
  have r: "resolve s [d, f] = Some n"
    using resolve_child [OF Cons.prems(1)] n by simp
  then have st: "stat ([d] @ [f]) s = Inr n"
    by (simp add: stat_def del: resolve.simps)
  have del: "(if isDirectory n then removeTree env ([d] @ [f]) s else unlink ([d] @ [f]) s)
      = Inr (rm [d, f] s)"
    using r
    by (cases n)
      (simp_all add: removeTree_def rmdir_s_q_def rm_recursive_force_def unlink_def
         del: resolve.simps rm.simps)
  have a: "resolve (rm [d, f] s) [d] = Some (Dir (AList.delete f ds))"
    using resolve_rm_child [OF Cons.prems(1)] .
  have "f \<notin> set files" using Cons.prems(2) by simp
  moreover have "set (map fst (AList.delete f ds)) = set (map fst ds) - {f}"
    by (simp only: delete_keys set_removeAll)
  ultimately have sub: "set files \<subseteq> fst ` set (AList.delete f ds)"
    using Cons.prems(3) by auto
  have "distinct files" using Cons.prems(2) by simp
  then obtain s' where "cleanEntries env [d] excl files (rm [d, f] s) = (None, s')"
    using Cons.IH [OF a _ sub Cons.prems(4)] by blast
  then show ?case
    using ne st del by (simp del: rm.simps)
qed

lemma cleanDirectoryAsync_empties:
  assumes "resolve s [d] = Some (Dir ds)" and "distinct (map fst ds)" and "\<And>f. [d, f] \<noteq> excl"
  shows "\<exists>s'. cleanDirectoryAsync env [d] excl s = Some (None, s')
    \<and> resolve s' [d] = Some (Dir [])"
proof -
  have rd: "readdir [d] s = Inr (map fst ds)"
    using assms(1) by (simp add: readdir_def del: resolve.simps)
  obtain s' where c: "cleanEntries env [d] excl (map fst ds) s = (None, s')"
    using cleanEntries_ok [OF assms(1,2) _ assms(3)] by auto
  have "resolve s' [d] = Some (Dir (fold AList.delete (map fst ds) ds))"
    using cleanEntries_children [OF c assms(3,1)] .
  then have "resolve s' [d] = Some (Dir [])"
    by (simp add: fold_delete_all del: resolve.simps)
  then show ?thesis
    using rd c by (simp add: cleanDirectoryAsync_def del: resolve.simps)
qed

lemma cleanDirectoryAsync_total: "cleanDirectoryAsync env p excl s \<noteq> None"
  by (simp add: cleanDirectoryAsync_def split: sum.splits)

lemma preserves_cleanOldFiles_body:
  assumes "\<And>item. item \<in> set itemsToDelete \<Longrightarrow> fst item \<noteq> y" and "y \<noteq> ''dados''"
  shows "preserves (y # q) (cleanOldFiles_body env)"
  unfolding cleanOldFiles_body_def
  using assms
  by (intro preserves_andThen preserves_inOrder_deleteItem preserves_ifExists
        preserves_cleanDirectoryAsync) auto

lemma cleanOldFiles_body_result:
  assumes "list_all (removable env s) itemsToDelete"
  shows "\<exists>r s'. cleanOldFiles_body env s = Some (r, s')
    \<and> (\<forall>item\<in>set itemsToDelete. resolve s' [fst item] = None)
    \<and> (resolve s [''dados''] = None \<longrightarrow> r = None \<and> resolve s' [''dados''] = None)
    \<and> (\<forall>ds. resolve s [''dados''] = Some (Dir ds) \<and> distinct (map fst ds) \<longrightarrow>
          r = None \<and> resolve s' [''dados''] = Some (Dir []))"
proof -
  let ?pass = "ifExists [''dados''] (cleanDirectoryAsync env [''dados''] (BACKUP_DIR env))"
  obtain s1 where a: "inOrder (map (deleteItem env) itemsToDelete) s = Some (None, s1)"
    using deleteItems_ok [OF assms] by blast
  have gone: "resolve s1 [fst item] = None" if "item \<in> set itemsToDelete" for item
    using deleteItems_absent [OF a that] .
  have "preserves [''dados''] (inOrder (map (deleteItem env) itemsToDelete))"
    by (rule preserves_inOrder_deleteItem) (rule dados_not_item)
  then have same: "resolve s1 [''dados''] = resolve s [''dados'']"
    using a by (rule preservesD)
  have "?pass s1 \<noteq> None"
    using cleanDirectoryAsync_total [of env "[''dados'']" "BACKUP_DIR env" s1]
    by (auto simp: ifExists_def skip_def)
  then obtain r s' where b: "?pass s1 = Some (r, s')"
    by (cases "?pass s1") auto
  have body: "cleanOldFiles_body env s = Some (r, s')"
    using a b by (simp add: cleanOldFiles_body_def andThen_def)
  have kept: "resolve s' [fst item] = None" if "item \<in> set itemsToDelete" for item
  proof -
    have "preserves [fst item] ?pass"
      using dados_not_item [OF that]
      by (intro preserves_ifExists preserves_cleanDirectoryAsync) auto
    then have "resolve s' [fst item] = resolve s1 [fst item]"
      using b by (rule preservesD)
    then show ?thesis using gone [OF that] by simp
  qed
  have none: "r = None \<and> resolve s' [''dados''] = None" if "resolve s [''dados''] = None"
    using that same b by (simp add: ifExists_def existsSync_def skip_def del: resolve.simps)
  have some: "r = None \<and> resolve s' [''dados''] = Some (Dir [])"
    if h1: "resolve s [''dados''] = Some (Dir ds)" and h2: "distinct (map fst ds)" for ds
  proof -
    have ex: "existsSync [''dados''] s1"
      using h1 same by (simp add: existsSync_def del: resolve.simps)
    have "resolve s1 [''dados''] = Some (Dir ds)" using h1 same by simp
    then obtain s2 where "cleanDirectoryAsync env [''dados''] (BACKUP_DIR env) s1 = Some (None, s2)"
      "resolve s2 [''dados''] = Some (Dir [])"
      using cleanDirectoryAsync_empties [OF _ h2 exclusion_never_matches] by blast
    then show ?thesis using b ex by (simp add: ifExists_def del: resolve.simps)
  qed
  show ?thesis
  proof (intro exI conjI ballI allI impI)
    show "cleanOldFiles_body env s = Some (r, s')" by (rule body)
  next
    fix item assume "item \<in> set itemsToDelete"
    then show "resolve s' [fst item] = None" by (rule kept)
  next
    assume "resolve s [''dados''] = None"
    then show "r = None" "resolve s' [''dados''] = None" using none by simp_all
  next
    fix ds assume "resolve s [''dados''] = Some (Dir ds) \<and> distinct (map fst ds)"
    then show "r = None" "resolve s' [''dados''] = Some (Dir [])" using some by simp_all
  qed
qed


text \<open>
  Claim C4 says that after the clean step every artifact of the removal list
  is gone, on any live tree. \<open>cleanOldFiles\<close> removes the artifacts the list
  marks as files with \<open>fs.unlink\<close>. In the tree below \<open>package.json\<close> is a
  directory: the step throws \<open>EISDIR\<close> there, and \<open>README.md\<close>, which comes
  later in the list, is still in place.
\<close>

theorem removal_kind_counterexample:
  "resolve (disk odd_kinds) [''README.md''] = Some (File ''readme'')
   \<and> cleanOldFiles env_ok odd_kinds \<noteq> None
   \<and> fst (the (cleanOldFiles env_ok odd_kinds)) = Raise EISDIR
   \<and> resolve (disk (snd (the (cleanOldFiles env_ok odd_kinds)))) [''README.md'']
       = Some (File ''readme'')"
  by code_simp

text \<open>
  Claim C4, as amended. On every tree \<open>cleanOldFiles\<close> returns, and whether
  it succeeded or threw, every path of the snapshot resolves as before: if the
  directory was there it still is, with the same contents. When each artifact
  of the removal list is absent or of a kind its removal accepts, then after
  the step \<open>.git\<close>, \<open>.github\<close>, \<open>.npm\<close>, \<open>node_modules\<close>,
  \<open>package.json\<close>, \<open>package-lock.json\<close> and \<open>README.md\<close> are all absent.
\<close>

theorem exclusion_invariant:
  "\<exists>r w'. cleanOldFiles env w = Some (r, w')
     \<and> (\<forall>q. resolve (disk w') (BACKUP_DIR env @ q) = resolve (disk w) (BACKUP_DIR env @ q))
     \<and> (list_all (removable env (disk w)) itemsToDelete \<longrightarrow>
          resolve (disk w') [''.git''] = None
          \<and> resolve (disk w') [''.github''] = None
          \<and> resolve (disk w') [''.npm''] = None
          \<and> resolve (disk w') [''node_modules''] = None
          \<and> resolve (disk w') [''package.json''] = None
          \<and> resolve (disk w') [''package-lock.json''] = None
          \<and> resolve (disk w') [''README.md''] = None)"
proof -
  obtain r w' where c: "cleanOldFiles env w = Some (r, w')"
    using cleanOldFiles_total [of env w] by (cases "cleanOldFiles env w") auto
  then obtain r' where b: "cleanOldFiles_body env (disk w) = Some (r', disk w')"
    using attempt_disk unfolding cleanOldFiles_def by blast
  have snap: "resolve (disk w') (BACKUP_DIR env @ q) = resolve (disk w) (BACKUP_DIR env @ q)" for q
    using preservesD [OF preserves_cleanOldFiles_body_backup b]
    by (simp add: BACKUP_DIR_eq del: resolve.simps)
  have gone: "resolve (disk w') [fst item] = None"
    if "list_all (removable env (disk w)) itemsToDelete" "item \<in> set itemsToDelete" for item
    using cleanOldFiles_body_result [OF that(1)] b that(2) by auto
  have "resolve (disk w') [''.git''] = None
          \<and> resolve (disk w') [''.github''] = None
          \<and> resolve (disk w') [''.npm''] = None
          \<and> resolve (disk w') [''node_modules''] = None
          \<and> resolve (disk w') [''package.json''] = None
          \<and> resolve (disk w') [''package-lock.json''] = None
          \<and> resolve (disk w') [''README.md''] = None"
    if h: "list_all (removable env (disk w)) itemsToDelete"
    using gone [OF h, of "(''.git'', DirItem)"] gone [OF h, of "(''.github'', DirItem)"]
      gone [OF h, of "(''.npm'', DirItem)"] gone [OF h, of "(''node_modules'', DirItem)"]
      gone [OF h, of "(''package.json'', FileItem)"]
      gone [OF h, of "(''package-lock.json'', FileItem)"]
      gone [OF h, of "(''README.md'', FileItem)"]
    by (simp add: itemsToDelete_def del: resolve.simps)
  then show ?thesis
    using c snap by blast
qed

theorem exclusion_invariant_witness:
  \<open>resolve (disk with_artifacts) (BACKUP_DIR env_ok) = Some snapshot_of_installed
   \<and> resolve (disk with_artifacts) [''.git''] = Some (Dir [(''HEAD'', File ''ref: refs/heads/main'')])
   \<and> resolve (disk with_artifacts) [''.github''] = Some (Dir [(''workflows'', Dir [])])
   \<and> resolve (disk with_artifacts) [''.npm''] = Some (Dir [])
   \<and> resolve (disk with_artifacts) [''node_modules'']
       = Some (Dir [(''baileys'', Dir [(''index.js'', File ''lib'')])])
   \<and> resolve (disk with_artifacts) [''package.json''] = Some (File ''{}'')
   \<and> resolve (disk with_artifacts) [''package-lock.json''] = Some (File ''{}'')
   \<and> resolve (disk with_artifacts) [''README.md''] = Some (File ''readme'')
   \<and> (\<exists>r w'. cleanOldFiles env_ok with_artifacts = Some (r, w')
        \<and> (\<forall>q. resolve (disk w') (BACKUP_DIR env_ok @ q)
                 = resolve (disk with_artifacts) (BACKUP_DIR env_ok @ q))
        \<and> resolve (disk w') [''.git''] = None
        \<and> resolve (disk w') [''.github''] = None
        \<and> resolve (disk w') [''.npm''] = None
        \<and> resolve (disk w') [''node_modules''] = None
        \<and> resolve (disk w') [''package.json''] = None
        \<and> resolve (disk w') [''package-lock.json''] = None
        \<and> resolve (disk w') [''README.md''] = None)\<close>
proof -
  have h: "list_all (removable env_ok (disk with_artifacts)) itemsToDelete"
    by code_simp
  have b: \<open>resolve (disk with_artifacts) (BACKUP_DIR env_ok) = Some snapshot_of_installed
   \<and> resolve (disk with_artifacts) [''.git''] = Some (Dir [(''HEAD'', File ''ref: refs/heads/main'')])
   \<and> resolve (disk with_artifacts) [''.github''] = Some (Dir [(''workflows'', Dir [])])
   \<and> resolve (disk with_artifacts) [''.npm''] = Some (Dir [])
   \<and> resolve (disk with_artifacts) [''node_modules'']
       = Some (Dir [(''baileys'', Dir [(''index.js'', File ''lib'')])])
   \<and> resolve (disk with_artifacts) [''package.json''] = Some (File ''{}'')
   \<and> resolve (disk with_artifacts) [''package-lock.json''] = Some (File ''{}'')
   \<and> resolve (disk with_artifacts) [''README.md''] = Some (File ''readme'')\<close>
    by code_simp
  show ?thesis
    using exclusion_invariant [of env_ok with_artifacts] h b by blast
qed

text \<open>
  Claim C10. \<open>cleanDirectoryAsync\<close> compares each entry of \<open>dados\<close> with the
  snapshot location, which lies directly below the working directory, so the
  comparison never holds. On a tree where \<open>dados\<close> is a directory, the pass
  over it completes and leaves it empty. When the artifacts of the removal
  list can be removed, so that the step reaches that pass, \<open>cleanOldFiles\<close>
  completes with \<open>dados\<close> empty: the three configured paths are gone from the
  live tree, and what the snapshot holds for them is untouched.
\<close>

theorem user_data_emptied:
  assumes "resolve (disk w) [''dados''] = Some (Dir ds)" and "distinct (map fst ds)"
  shows "(\<forall>file. [''dados'', file] \<noteq> BACKUP_DIR env)
    \<and> (\<exists>s'. cleanDirectoryAsync env [''dados''] (BACKUP_DIR env) (disk w) = Some (None, s')
          \<and> resolve s' [''dados''] = Some (Dir []))
    \<and> (list_all (removable env (disk w)) itemsToDelete \<longrightarrow>
         (\<exists>w'. cleanOldFiles env w = Some (Done, w')
            \<and> resolve (disk w') [''dados''] = Some (Dir [])
            \<and> resolve (disk w') [''dados'', ''database''] = None
            \<and> resolve (disk w') [''dados'', ''src'', ''config.json''] = None
            \<and> resolve (disk w') [''dados'', ''midias''] = None
            \<and> (\<forall>q. resolve (disk w') (BACKUP_DIR env @ [''dados''] @ q)
                   = resolve (disk w) (BACKUP_DIR env @ [''dados''] @ q))))"
proof -
  have pass: "\<exists>s'. cleanDirectoryAsync env [''dados''] (BACKUP_DIR env) (disk w) = Some (None, s')
          \<and> resolve s' [''dados''] = Some (Dir [])"
    using cleanDirectoryAsync_empties [OF assms exclusion_never_matches] .
  have step: "\<exists>w'. cleanOldFiles env w = Some (Done, w')
            \<and> resolve (disk w') [''dados''] = Some (Dir [])
            \<and> resolve (disk w') [''dados'', ''database''] = None
            \<and> resolve (disk w') [''dados'', ''src'', ''config.json''] = None
            \<and> resolve (disk w') [''dados'', ''midias''] = None
            \<and> (\<forall>q. resolve (disk w') (BACKUP_DIR env @ [''dados''] @ q)
                   = resolve (disk w) (BACKUP_DIR env @ [''dados''] @ q))"
    if h: "list_all (removable env (disk w)) itemsToDelete"
  proof -
    obtain s' where b: "cleanOldFiles_body env (disk w) = Some (None, s')"
      and d: "resolve s' [''dados''] = Some (Dir [])"
      using cleanOldFiles_body_result [OF h] assms by blast
    let ?w' = "\<lparr>disk = s', console = console w @ [Begin CleanOldFiles, Succeeded CleanOldFiles]\<rparr>"
    have c: "cleanOldFiles env w = Some (Done, ?w')"
      using b by (simp add: cleanOldFiles_def attempt_def)
    obtain es where es: "s' = Dir es" "map_of es ''dados'' = Some (Dir [])"
      using d by (cases s') (auto split: option.splits)
    have sub: "resolve s' (''dados'' # x # q) = None" for x q
      using es by simp
    have snap: "resolve s' (BACKUP_DIR env @ [''dados''] @ q)
           = resolve (disk w) (BACKUP_DIR env @ [''dados''] @ q)" for q
      using preservesD [OF preserves_cleanOldFiles_body_backup b]
      by (simp add: BACKUP_DIR_eq del: resolve.simps)
    show ?thesis
      using c d sub snap by (simp del: resolve.simps)
  qed
  show ?thesis
    using pass step exclusion_never_matches by blast
qed

theorem user_data_emptied_witness:
  \<open>resolve (disk backed_up) [''dados'']
       = Some (Dir [(''database'', Dir [(''db.json'', File ''{"v":1}'')]),
                    (''src'', Dir [(''config.json'', File ''{"prefixo":"!"}'')])])
   \<and> (\<exists>s'. cleanDirectoryAsync env_ok [''dados''] (BACKUP_DIR env_ok) (disk backed_up)
               = Some (None, s')
          \<and> resolve s' [''dados''] = Some (Dir []))
   \<and> (\<exists>w'. cleanOldFiles env_ok backed_up = Some (Done, w')
          \<and> resolve (disk w') [''dados''] = Some (Dir [])
          \<and> resolve (disk w') [''dados'', ''database''] = None
          \<and> resolve (disk w') [''dados'', ''src'', ''config.json''] = None
          \<and> resolve (disk w') [''dados'', ''midias''] = None
          \<and> resolve (disk w') (BACKUP_DIR env_ok @ [''dados''])
              = Some (Dir [(''database'', Dir [(''db.json'', File ''{"v":1}'')]),
                           (''src'', Dir [(''config.json'', File ''{"prefixo":"!"}'')]),
                           (''midias'', Dir [])]))\<close>
proof -
  let ?ds = \<open>[(''database'', Dir [(''db.json'', File ''{"v":1}'')]),
              (''src'', Dir [(''config.json'', File ''{"prefixo":"!"}'')])]\<close>
  have h1: "resolve (disk backed_up) [''dados''] = Some (Dir ?ds)"
    by code_simp
  have h2: "distinct (map fst ?ds)"
    by simp
  have h3: "list_all (removable env_ok (disk backed_up)) itemsToDelete"
    by code_simp
  have h4: \<open>resolve (disk backed_up) (BACKUP_DIR env_ok @ [''dados''] @ [])
              = Some (Dir [(''database'', Dir [(''db.json'', File ''{"v":1}'')]),
                           (''src'', Dir [(''config.json'', File ''{"prefixo":"!"}'')]),
                           (''midias'', Dir [])])\<close>
    by code_simp
  have t: "(\<exists>s'. cleanDirectoryAsync env_ok [''dados''] (BACKUP_DIR env_ok) (disk backed_up)
               = Some (None, s')
          \<and> resolve s' [''dados''] = Some (Dir []))
    \<and> (\<exists>w'. cleanOldFiles env_ok backed_up = Some (Done, w')
            \<and> resolve (disk w') [''dados''] = Some (Dir [])
            \<and> resolve (disk w') [''dados'', ''database''] = None
            \<and> resolve (disk w') [''dados'', ''src'', ''config.json''] = None
            \<and> resolve (disk w') [''dados'', ''midias''] = None
            \<and> (\<forall>q. resolve (disk w') (BACKUP_DIR env_ok @ [''dados''] @ q)
                   = resolve (disk backed_up) (BACKUP_DIR env_ok @ [''dados''] @ q)))"
    using user_data_emptied [OF h1 h2, of env_ok] h3 by blast
  then obtain w' where w': "cleanOldFiles env_ok backed_up = Some (Done, w')"
      "resolve (disk w') [''dados''] = Some (Dir [])"
      "resolve (disk w') [''dados'', ''database''] = None"
      "resolve (disk w') [''dados'', ''src'', ''config.json''] = None"
      "resolve (disk w') [''dados'', ''midias''] = None"
      "\<And>q. resolve (disk w') (BACKUP_DIR env_ok @ [''dados''] @ q)
                   = resolve (disk backed_up) (BACKUP_DIR env_ok @ [''dados''] @ q)"
    by blast
  have "resolve (disk w') (BACKUP_DIR env_ok @ [''dados''])
      = resolve (disk backed_up) (BACKUP_DIR env_ok @ [''dados''] @ [])"
    using w'(6) [of "[]"] by simp
  then show ?thesis
    using h1 h4 t w'(1-5) by auto
qed

section \<open>Copying directory trees\<close>

text \<open>
  Three facts about \<open>copyDirectoryAsync\<close> carry the rest: it writes only at
  and below its destination; when it succeeds, every file directly in the
  source directory is at the destination with the same content; and into a
  destination that is missing or empty, from a well-formed source that lies
  apart from it, it always succeeds and leaves an exact copy.
\<close>

lemma apart_sym: "apart p q \<Longrightarrow> apart q p"
  by (induction p q rule: apart.induct) auto

lemma apart_append1: "apart p q \<Longrightarrow> apart (p @ r) q"
  by (induction p q rule: apart.induct) auto

lemma apart_append2: "apart p q \<Longrightarrow> apart p (q @ r)"
  by (induction p q rule: apart.induct) auto

lemma apart_siblings: "f \<noteq> g \<Longrightarrow> apart (p @ [f]) (p @ [g])"
  by (induction p) auto

lemma resolve_update_apart_aux:
  "x \<noteq> y \<Longrightarrow> resolve (Dir (AList.update x v es)) (y # q) = resolve (Dir es) (y # q)"
  by (simp add: update_conv')

lemma mkdir_frame:
  "mkdir_recursive p s = Inr s' \<Longrightarrow> apart p q \<Longrightarrow> resolve s' q = resolve s q"
proof (induction p arbitrary: s s' q)
  case Nil
  then show ?case by simp
next
  case (Cons x p)
  from Cons.prems(2) obtain y q' where q: "q = y # q'" by (cases q) auto
  from Cons.prems(1) obtain es where s: "s = Dir es" by (cases s) auto
  let ?ch = "case map_of es x of None \<Rightarrow> Dir [] | Some ch \<Rightarrow> ch"
  from Cons.prems(1) s obtain ch' where
    m: "mkdir_recursive p ?ch = Inr ch'" and s': "s' = Dir (AList.update x ch' es)"
    by (auto split: sum.splits)
  show ?case
  proof (cases "x = y")
    case False
    then show ?thesis using s s' q by (simp add: update_conv')
  next
    case True
    then have ap: "apart p q'" using Cons.prems(2) q by simp
    have ih: "resolve ch' q' = resolve ?ch q'" using Cons.IH [OF m ap] .
    have "q' \<noteq> []" using ap by (cases p) auto
    then have "resolve (Dir []) q' = None" by (cases q') auto
    then show ?thesis using True s s' q ih by (simp add: update_conv' split: option.splits)
  qed
qed

lemma writeFile_frame:
  "writeFile p c s = Inr s' \<Longrightarrow> apart p q \<Longrightarrow> resolve s' q = resolve s q"
proof (induction p arbitrary: s s' q)
  case Nil
  then show ?case by simp
next
  case (Cons x p)
  from Cons.prems(2) obtain y q' where q: "q = y # q'" by (cases q) auto
  from Cons.prems(1) obtain es where s: "s = Dir es" by (cases s) auto
  show ?case
  proof (cases "x = y")
    case False
    then show ?thesis using Cons.prems(1) s q
      by (auto simp: update_conv' split: option.splits if_splits sum.splits)
  next
    case True
    then have ap: "apart p q'" using Cons.prems(2) q by simp
    then have pne: "p \<noteq> []" by (cases p) auto
    show ?thesis
    proof (cases "map_of es x")
      case None
      then show ?thesis using Cons.prems(1) s pne by simp
    next
      case (Some ch)
      then obtain ch' where w: "writeFile p c ch = Inr ch'" and s': "s' = Dir (AList.update x ch' es)"
        using Cons.prems(1) s by (auto split: sum.splits)
      have "resolve ch' q' = resolve ch q'" using Cons.IH [OF w ap] .
      then show ?thesis using True s s' q Some by (simp add: update_conv')
    qed
  qed
qed

lemma rm_frame: "apart p q \<Longrightarrow> resolve (rm p s) q = resolve s q"
proof (induction p s arbitrary: q rule: rm.induct)
  case (1 n)
  then show ?case by simp
next
  case (2 x p c)
  then show ?case by simp
next
  case (3 x es)
  then obtain y q' where "q = y # q'" "x \<noteq> y" by (cases q) auto
  then show ?case by simp
next
  case (4 x y p es)
  from "4.prems" obtain z q' where q: "q = z # q'" by (cases q) auto
  show ?case
  proof (cases "x = z")
    case False
    then show ?thesis using q by (simp add: update_conv' split: option.splits)
  next
    case True
    then have ap: "apart (y # p) q'" using "4.prems" q by simp
    show ?thesis
    proof (cases "map_of es x")
      case None
      then show ?thesis by simp
    next
      case (Some ch)
      then show ?thesis using "4.IH" [OF Some ap] True q by (simp add: update_conv')
    qed
  qed
qed

lemma copyFile_frame:
  "copyFile src dst s = Inr s' \<Longrightarrow> apart dst q \<Longrightarrow> resolve s' q = resolve s q"
  by (auto simp: copyFile_def split: option.splits node.splits dest: writeFile_frame)

lemma copy_dir_eq:
  "copy_run (CopyDir source destination) s =
     (case (if existsSync destination s then Inr s else mkdir_recursive destination s) of
        Inl e \<Rightarrow> Some (Some e, s)
      | Inr s1 \<Rightarrow>
          (case readdir source s1 of
             Inl e \<Rightarrow> Some (Some e, s1)
           | Inr files \<Rightarrow> copy_run (CopyEntries files source destination) s1))"
  by (subst copy_run.simps) simp

lemma copy_nil_eq: "copy_run (CopyEntries [] source destination) s = Some (None, s)"
  by (subst copy_run.simps) simp

lemma copy_cons_eq:
  "copy_run (CopyEntries (file # files) source destination) s =
     (case stat (source @ [file]) s of
        Inl e \<Rightarrow> Some (Some e, s)
      | Inr stats \<Rightarrow>
          if isDirectory stats then
            Option.bind (copy_run (CopyDir (source @ [file]) (destination @ [file])) s)
              (\<lambda>(r, s1). case r of
                   Some e \<Rightarrow> Some (Some e, s1)
                 | None \<Rightarrow> copy_run (CopyEntries files source destination) s1)
          else
            (case copyFile (source @ [file]) (destination @ [file]) s of
               Inl e \<Rightarrow> Some (Some e, s)
             | Inr s1 \<Rightarrow> copy_run (CopyEntries files source destination) s1))"
  by (subst copy_run.simps) simp

lemma copy_frame_aux:
  assumes "copy_run t s = Some y"
  shows "\<not> touches t q \<longrightarrow> resolve (snd y) q = resolve s q"
proof (rule copy_run.raw_induct
    [where P = "\<lambda>t s y. \<not> touches t q \<longrightarrow> resolve (snd y) q = resolve s q", OF _ assms],
    goal_cases)
    case (1 copy t s y)
    show ?case
    proof (cases t)
      case (CopyDir source destination)
      show ?thesis
      proof (intro impI)
        assume nt: "\<not> touches t q"
        then have ap: "apart destination q" using CopyDir by simp
        show "resolve (snd y) q = resolve s q"
        proof (cases "if existsSync destination s then Inr s else mkdir_recursive destination s")
          case (Inl e)
          then show ?thesis using 1(2) CopyDir by auto
        next
          case (Inr s1)
          have a: "resolve s1 q = resolve s q"
            using Inr mkdir_frame [OF _ ap] by (auto split: if_splits)
          show ?thesis
          proof (cases "readdir source s1")
            case (Inl e)
            then show ?thesis using 1(2) CopyDir Inr a by auto
          next
            case files: (Inr files)
            then have c: "copy (CopyEntries files source destination) s1 = Some y"
              using 1(2) CopyDir Inr by simp
            have "\<not> touches (CopyEntries files source destination) q"
              using ap by (simp add: apart_append1)
            then show ?thesis using 1(1) [OF c] a by simp
          qed
        qed
      qed
    next
      case (CopyEntries files source destination)
      show ?thesis
      proof (cases files)
        case Nil
        then show ?thesis using 1(2) CopyEntries by auto
      next
        case (Cons entry rest)
        show ?thesis
        proof (intro impI)
          assume nt: "\<not> touches t q"
          have ap: "apart (destination @ [entry]) q" and nr: "\<not> touches (CopyEntries rest source destination) q"
            using nt CopyEntries Cons by simp_all
          show "resolve (snd y) q = resolve s q"
          proof (cases "stat (source @ [entry]) s")
            case (Inl e)
            then show ?thesis using 1(2) CopyEntries Cons by auto
          next
            case (Inr stats)
            show ?thesis
            proof (cases "isDirectory stats")
              case True
              then obtain r1 s1 where
                c1: "copy (CopyDir (source @ [entry]) (destination @ [entry])) s = Some (r1, s1)" and
                c2: "(case r1 of Some e \<Rightarrow> Some (Some e, s1)
                      | None \<Rightarrow> copy (CopyEntries rest source destination) s1) = Some y"
                using 1(2) CopyEntries Cons Inr
                by (auto simp: bind_eq_Some_conv)
              have a: "resolve s1 q = resolve s q"
                using 1(1) [OF c1] ap by simp
              show ?thesis
              proof (cases r1)
                case None
                then have "copy (CopyEntries rest source destination) s1 = Some y" using c2 by simp
                then show ?thesis using 1(1) nr a by simp
              next
                case (Some e)
                then show ?thesis using c2 a by auto
              qed
            next
              case False
              show ?thesis
              proof (cases "copyFile (source @ [entry]) (destination @ [entry]) s")
                case (Inl e)
                then show ?thesis using 1(2) CopyEntries Cons Inr False by auto
              next
                case s1: (Inr s1)
                then have c: "copy (CopyEntries rest source destination) s1 = Some y"
                  using 1(2) CopyEntries Cons Inr False by simp
                have "resolve s1 q = resolve s q" using copyFile_frame [OF s1 ap] .
                then show ?thesis using 1(1) [OF c] nr by simp
              qed
            qed
          qed
        qed
      qed
    qed
  qed

lemma copy_frame:
  "copy_run t s = Some (r, s') \<Longrightarrow> \<not> touches t q \<Longrightarrow> resolve s' q = resolve s q"
  using copy_frame_aux [of t s "(r, s')" q] by simp

lemma writeFile_result: "writeFile p c s = Inr s' \<Longrightarrow> resolve s' p = Some (File c)"
proof (induction p arbitrary: s s')
  case Nil
  then show ?case by (cases s) auto
next
  case (Cons x p)
  from Cons.prems obtain es where s: "s = Dir es" by (cases s) auto
  show ?case
  proof (cases "map_of es x")
    case None
    then show ?thesis using Cons.prems s by (auto simp: update_conv' split: if_splits)
  next
    case (Some ch)
    then obtain ch' where w: "writeFile p c ch = Inr ch'" and s': "s' = Dir (AList.update x ch' es)"
      using Cons.prems s by (auto split: sum.splits)
    then show ?thesis using Cons.IH [OF w] by (simp add: update_conv')
  qed
qed

lemma copyFile_result:
  "copyFile src dst s = Inr s' \<Longrightarrow> \<exists>c. resolve s src = Some (File c) \<and> resolve s' dst = Some (File c)"
  by (auto simp: copyFile_def split: option.splits node.splits dest: writeFile_result)

lemma apart_entries: "apart p q \<Longrightarrow> apart (p @ [f]) (q @ [g])"
  by (simp add: apart_append1 apart_append2)

lemma copy_entries_files:
  "copy_run (CopyEntries files src dst) s = Some (None, s') \<Longrightarrow> apart dst src \<Longrightarrow>
   f \<in> set files \<Longrightarrow> resolve s (src @ [f]) = Some (File c) \<Longrightarrow>
   resolve s' (dst @ [f]) = Some (File c)"
proof (induction files arbitrary: s)
  case Nil
  then show ?case by simp
next
  case (Cons f0 rest)
  note run = Cons.prems(1) and ap = Cons.prems(2) and src = Cons.prems(4)
  show ?case
  proof (cases "stat (src @ [f0]) s")
    case (Inl e)
    then show ?thesis using run by (simp add: copy_cons_eq)
  next
    case (Inr stats)
    show ?thesis
    proof (cases "isDirectory stats")
      case True
      then obtain s1 where
        c1: "copy_run (CopyDir (src @ [f0]) (dst @ [f0])) s = Some (None, s1)" and
        c2: "copy_run (CopyEntries rest src dst) s1 = Some (None, s')"
        using run Inr
        by (auto simp: copy_cons_eq bind_eq_Some_conv split: option.splits)
      have "f \<noteq> f0"
        using src Inr True by (auto simp: stat_def)
      then have fr: "f \<in> set rest" using Cons.prems(3) by simp
      have "\<not> touches (CopyDir (src @ [f0]) (dst @ [f0])) (src @ [f])"
        using ap by (simp add: apart_entries)
      then have "resolve s1 (src @ [f]) = Some (File c)"
        using copy_frame [OF c1] src by simp
      then show ?thesis using Cons.IH [OF c2 ap fr] by simp
    next
      case False
      then obtain s1 where
        c1: "copyFile (src @ [f0]) (dst @ [f0]) s = Inr s1" and
        c2: "copy_run (CopyEntries rest src dst) s1 = Some (None, s')"
        using run Inr
        by (auto simp: copy_cons_eq split: sum.splits)
      show ?thesis
      proof (cases "f \<in> set rest")
        case True
        have "resolve s1 (src @ [f]) = Some (File c)"
          using copyFile_frame [OF c1, of "src @ [f]"] ap src by (simp add: apart_entries)
        then show ?thesis using Cons.IH [OF c2 ap True] by simp
      next
        case nr: False
        then have f0: "f = f0" using Cons.prems(3) by simp
        have a: "resolve s1 (dst @ [f]) = Some (File c)"
          using copyFile_result [OF c1] src f0 by simp
        have "\<not> touches (CopyEntries rest src dst) (dst @ [f])"
          using nr by (auto intro!: apart_siblings)
        then show ?thesis using copy_frame [OF c2] a by simp
      qed
    qed
  qed
qed

lemma resolve_snoc:
  "resolve n (p @ [x]) = (case resolve n p of Some (Dir es) \<Rightarrow> map_of es x | _ \<Rightarrow> None)"
proof (induction p arbitrary: n)
  case Nil
  then show ?case by (cases n) (simp_all split: option.splits)
next
  case (Cons y p)
  show ?case
  proof (cases n)
    case (File c)
    then show ?thesis by simp
  next
    case (Dir es)
    then show ?thesis using Cons.IH by (cases "map_of es y") simp_all
  qed
qed

lemma readdir_lists:
  assumes "resolve s (p @ [f]) = Some n" and "readdir p s = Inr files"
  shows "f \<in> set files"
proof -
  from assms(2) obtain es where es: "resolve s p = Some (Dir es)" and files: "files = map fst es"
    by (auto simp: readdir_def split: option.splits node.splits)
  have "map_of es f = Some n"
    using assms(1) es by (simp add: resolve_snoc)
  then have "(f, n) \<in> set es" by (rule map_of_SomeD)
  then show ?thesis using files by force
qed

lemma copy_dir_files:
  assumes "copy_run (CopyDir src dst) s = Some (None, s')" and "apart dst src"
    and "resolve s (src @ [f]) = Some (File c)"
  shows "resolve s' (dst @ [f]) = Some (File c)"
proof -
  from assms(1) obtain s1 files where
    m: "(if existsSync dst s then Inr s else mkdir_recursive dst s) = Inr s1" and
    r: "readdir src s1 = Inr files" and
    c: "copy_run (CopyEntries files src dst) s1 = Some (None, s')"
    by (auto simp: copy_dir_eq split: sum.splits)
  have same: "resolve s1 q = resolve s q" if "apart dst q" for q
    using m that mkdir_frame by (auto split: if_splits)
  have a: "resolve s1 (src @ [f]) = Some (File c)"
    using same [of "src @ [f]"] assms(2,3) by (simp add: apart_append2)
  have b: "resolve s1 src = resolve s src"
    using same assms(2) by simp
  have "f \<in> set files"
    using readdir_lists [OF a r] .
  then show ?thesis using copy_entries_files [OF c assms(2) _ a] by simp
qed

lemma passable_empty: "passable (Dir []) p"
  by (cases p) simp_all

lemma resolve_empty: "p \<noteq> [] \<Longrightarrow> resolve (Dir []) p = None"
  by (cases p) simp_all

lemma resolve_put_under: "passable s p \<Longrightarrow> resolve (put p v s) (p @ q) = resolve v q"
proof (induction p arbitrary: s)
  case Nil
  then show ?case by simp
next
  case (Cons x p)
  from Cons.prems obtain es where s: "s = Dir es" by (cases s) auto
  show ?case
  proof (cases "map_of es x")
    case None
    then show ?thesis using s Cons.IH [OF passable_empty] by (simp add: update_conv')
  next
    case (Some ch)
    then have "passable ch p" using Cons.prems s by simp
    then show ?thesis using s Some Cons.IH by (simp add: update_conv')
  qed
qed

lemma resolve_put_self: "passable s p \<Longrightarrow> resolve (put p v s) p = Some v"
  using resolve_put_under [of s p v "[]"] by simp

lemma resolve_put_apart: "apart p q \<Longrightarrow> resolve (put p v s) q = resolve s q"
proof (induction p arbitrary: s q)
  case Nil
  then show ?case by simp
next
  case (Cons x p)
  from Cons.prems obtain y q' where q: "q = y # q'" by (cases q) auto
  show ?case
  proof (cases s)
    case (File c)
    then show ?thesis by simp
  next
    case (Dir es)
    show ?thesis
    proof (cases "x = y")
      case False
      then show ?thesis using Dir q by (simp add: update_conv')
    next
      case True
      then have ap: "apart p q'" using Cons.prems q by simp
      then have "q' \<noteq> []" by (cases p) auto
      then have "resolve (Dir []) q' = None" by (rule resolve_empty)
      then show ?thesis
        using True Dir q Cons.IH [OF ap]
        by (simp add: update_conv' split: option.splits)
    qed
  qed
qed

lemma put_put: "put (p @ q) v (put p u s) = put p (put q v u) s"
proof (induction p arbitrary: s)
  case Nil
  then show ?case by simp
next
  case (Cons x p)
  show ?case
  proof (cases s)
    case (File c)
    then show ?thesis by simp
  next
    case (Dir es)
    then show ?thesis using Cons.IH by (simp add: update_conv')
  qed
qed

lemma put_again: "put p v (put p u s) = put p v s"
  using put_put [of p "[]" v u s] by simp

lemma put_same: "resolve s p = Some v \<Longrightarrow> put p v s = s"
proof (induction p arbitrary: s)
  case Nil
  then show ?case by simp
next
  case (Cons x p)
  from Cons.prems obtain es ch where s: "s = Dir es" and ch: "map_of es x = Some ch"
    and r: "resolve ch p = Some v"
    by (cases s) (auto split: option.splits)
  then show ?case using Cons.IH [OF r] by (simp add: update_triv)
qed

lemma mkdir_empty: "mkdir_recursive p (Dir []) = Inr (put p (Dir []) (Dir []))"
  by (induction p) simp_all

lemma mkdir_fresh:
  "passable s p \<Longrightarrow> resolve s p = None \<Longrightarrow> mkdir_recursive p s = Inr (put p (Dir []) s)"
proof (induction p arbitrary: s)
  case Nil
  then show ?case by simp
next
  case (Cons x p)
  from Cons.prems(1) obtain es where s: "s = Dir es" by (cases s) auto
  show ?case
  proof (cases "map_of es x")
    case None
    then show ?thesis using s by (simp add: mkdir_empty)
  next
    case (Some ch)
    then have "passable ch p" "resolve ch p = None" using Cons.prems s by simp_all
    then show ?thesis using s Some Cons.IH by simp
  qed
qed

lemma mkdir_existing: "resolve s p = Some (Dir ds) \<Longrightarrow> mkdir_recursive p s = Inr s"
proof (induction p arbitrary: s)
  case Nil
  then show ?case by simp
next
  case (Cons x p)
  from Cons.prems obtain es ch where s: "s = Dir es" and ch: "map_of es x = Some ch"
    and r: "resolve ch p = Some (Dir ds)"
    by (cases s) (auto split: option.splits)
  then show ?case using Cons.IH [OF r] by (simp add: update_triv)
qed

lemma writeFile_entry:
  "resolve s p = Some (Dir ds) \<Longrightarrow> map_of ds f = None \<Longrightarrow>
   writeFile (p @ [f]) c s = Inr (put p (Dir (AList.update f (File c) ds)) s)"
proof (induction p arbitrary: s)
  case Nil
  then show ?case by simp
next
  case (Cons x p)
  from Cons.prems(1) obtain es ch where s: "s = Dir es" and ch: "map_of es x = Some ch"
    and r: "resolve ch p = Some (Dir ds)"
    by (cases s) (auto split: option.splits)
  then show ?case using Cons.IH [OF r Cons.prems(2)] by simp
qed

lemma passable_put: "passable s p \<Longrightarrow> passable (put p v s) (p @ q) = passable v q"
proof (induction p arbitrary: s)
  case Nil
  then show ?case by simp
next
  case (Cons x p)
  from Cons.prems obtain es where s: "s = Dir es" by (cases s) auto
  show ?case
  proof (cases "map_of es x")
    case None
    then show ?thesis using s Cons.IH [OF passable_empty] by (simp add: update_conv')
  next
    case (Some ch)
    then have "passable ch p" using Cons.prems s by simp
    then show ?thesis using s Some Cons.IH by (simp add: update_conv')
  qed
qed

lemma update_absent: "k \<notin> fst ` set al \<Longrightarrow> AList.update k v al = al @ [(k, v)]"
  by (induction al) auto

lemma map_of_middle:
  "distinct (map fst (done @ (f, c) # rest)) \<Longrightarrow> map_of (done @ (f, c) # rest) f = Some c"
  by (induction "done") auto

lemma copy_entries_fresh:
  assumes ih: "\<And>f c s src dst. (f, c) \<in> set es \<Longrightarrow> isDirectory c \<Longrightarrow>
        resolve s src = Some c \<Longrightarrow> apart dst src \<Longrightarrow> passable s dst \<Longrightarrow>
        resolve s dst = None \<Longrightarrow>
        copy_run (CopyDir src dst) s = Some (None, put dst c s)"
    and src: "resolve s0 src = Some (Dir es)"
    and ap: "apart dst src"
    and pass: "passable s0 dst"
    and dist: "distinct (map fst es)"
  shows "es = before @ todo \<Longrightarrow>
     copy_run (CopyEntries (map fst todo) src dst) (put dst (Dir before) s0)
       = Some (None, put dst (Dir es) s0)"
proof (induction todo arbitrary: before)
  case Nil
  then show ?case by (simp add: copy_nil_eq)
next
  case (Cons e rest)
  obtain f c where e: "e = (f, c)" by (cases e)
  let ?s = "put dst (Dir before) s0"
  have es: "es = before @ (f, c) # rest" using Cons.prems e by simp
  have mem: "(f, c) \<in> set es" using es by simp
  have fresh: "f \<notin> fst ` set before"
    using dist es by auto
  have mo: "map_of es f = Some c"
    using map_of_middle dist es by metis
  have "resolve ?s (src @ [f]) = resolve s0 (src @ [f])"
    using resolve_put_apart [of dst "src @ [f]"] ap by (simp add: apart_append2)
  then have rs: "resolve ?s (src @ [f]) = Some c"
    using src mo by (simp add: resolve_snoc)
  have st: "stat (src @ [f]) ?s = Inr c"
    using rs by (simp add: stat_def)
  have absent: "map_of before f = None"
    using fresh by (simp add: map_of_eq_None_iff)
  have next_state: "put dst (Dir (AList.update f c before)) s0 = put dst (Dir (before @ [(f, c)])) s0"
    using fresh by (simp add: update_absent)
  have step: "copy_run (CopyEntries (map fst rest) src dst) (put dst (Dir (before @ [(f, c)])) s0)
      = Some (None, put dst (Dir es) s0)"
    using Cons.IH [of "before @ [(f, c)]"] es by simp
  show ?case
  proof (cases c)
    case (Dir sub)
    have pd: "passable ?s (dst @ [f])"
      using passable_put [OF pass, of "Dir before" "[f]"] by (simp split: option.splits)
    have rd: "resolve ?s (dst @ [f]) = None"
      using resolve_put_under [OF pass, of "Dir before" "[f]"] absent by simp
    have "copy_run (CopyDir (src @ [f]) (dst @ [f])) ?s = Some (None, put (dst @ [f]) c ?s)"
      using ih [OF mem _ rs _ pd rd] Dir ap by (simp add: apart_entries)
    moreover have "put (dst @ [f]) c ?s = put dst (Dir (before @ [(f, c)])) s0"
      using next_state by (simp add: put_put)
    ultimately show ?thesis
      using st Dir step e by (simp add: copy_cons_eq)
  next
    case (File content)
    have dd: "resolve ?s dst = Some (Dir before)"
      using resolve_put_self [OF pass] .
    have "writeFile (dst @ [f]) content ?s = Inr (put dst (Dir (AList.update f (File content) before)) ?s)"
      using writeFile_entry [OF dd absent] .
    then have "copyFile (src @ [f]) (dst @ [f]) ?s = Inr (put dst (Dir (before @ [(f, c)])) s0)"
      using rs File next_state by (simp add: copyFile_def put_again)
    then show ?thesis
      using st File step e by (simp add: copy_cons_eq)
  qed
qed

lemma copy_fresh_aux:
  "isDirectory n \<Longrightarrow> wf_node n \<Longrightarrow> resolve s src = Some n \<Longrightarrow> apart dst src \<Longrightarrow>
   passable s dst \<Longrightarrow> resolve s dst = None \<or> resolve s dst = Some (Dir []) \<Longrightarrow>
   copy_run (CopyDir src dst) s = Some (None, put dst n s)"
proof (induction n arbitrary: s src dst)
  case (File c)
  then show ?case by simp
next
  case (Dir es)
  have dist: "distinct (map fst es)" and wfs: "\<And>f c. (f, c) \<in> set es \<Longrightarrow> wf_node c"
    using Dir.prems(2) by (auto simp: list_all_iff)
  have ih: "copy_run (CopyDir src' dst') s' = Some (None, put dst' c s')"
    if "(f, c) \<in> set es" "isDirectory c" "resolve s' src' = Some c" "apart dst' src'"
      "passable s' dst'" "resolve s' dst' = None" for f c s' src' dst'
    using Dir.IH [of "(f, c)" c s' src' dst'] that wfs by simp
  let ?s1 = "put dst (Dir []) s"
  have s1: "(if existsSync dst s then Inr s else mkdir_recursive dst s) = Inr ?s1"
  proof (cases "resolve s dst")
    case None
    then show ?thesis
      using mkdir_fresh [OF Dir.prems(5)] by (simp add: existsSync_def)
  next
    case (Some v)
    then have "resolve s dst = Some (Dir [])" using Dir.prems(6) by simp
    then show ?thesis
      using put_same [of s dst "Dir []"] by (simp add: existsSync_def)
  qed
  have "resolve ?s1 src = Some (Dir es)"
    using resolve_put_apart [OF Dir.prems(4)] Dir.prems(3) by simp
  then have rd: "readdir src ?s1 = Inr (map fst es)"
    by (simp add: readdir_def)
  have "copy_run (CopyEntries (map fst es) src dst) (put dst (Dir []) s)
       = Some (None, put dst (Dir es) s)"
    using copy_entries_fresh [of es s src dst "[]" es]
      ih Dir.prems(3) Dir.prems(4) Dir.prems(5) dist by blast
  then show ?case
    using s1 rd by (simp add: copy_dir_eq)
qed

lemma copy_fresh:
  assumes "resolve s src = Some (Dir es)" and "wf_node (Dir es)" and "apart dst src"
    and "passable s dst" and "resolve s dst = None \<or> resolve s dst = Some (Dir [])"
  shows "copyDirectoryAsync src dst s = Some (None, put dst (Dir es) s)"
  unfolding copyDirectoryAsync_def
  using copy_fresh_aux [of "Dir es" s src dst] assms by simp

lemma wf_resolve: "wf_node s \<Longrightarrow> resolve s p = Some n \<Longrightarrow> wf_node n"
proof (induction p arbitrary: s)
  case Nil
  then show ?case by simp
next
  case (Cons x p)
  from Cons.prems(2) obtain es ch where s: "s = Dir es" and ch: "map_of es x = Some ch"
    and r: "resolve ch p = Some n"
    by (cases s) (auto split: option.splits)
  have "(x, ch) \<in> set es" using ch by (rule map_of_SomeD)
  then have "wf_node ch" using Cons.prems(1) s by (auto simp: list_all_iff)
  then show ?case using Cons.IH r by simp
qed

section \<open>Backup and restore\<close>

lemma andThen_ok: "a s = Some (None, s1) \<Longrightarrow> andThen a b s = b s1"
  by (simp add: andThen_def)

lemma inOrder_Cons: "inOrder (a # acts) = andThen a (inOrder acts)"
  by (simp add: inOrder_def)

lemma inOrder_Nil: "inOrder [] = skip"
  by (simp add: inOrder_def)

lemma io_ok: "f s = Inr s1 \<Longrightarrow> io f s = Some (None, s1)"
  by (simp add: io_def)

lemma passable_put_apart: "apart p q \<Longrightarrow> passable (put p v s) q = passable s q"
proof (induction p arbitrary: s q)
  case Nil
  then show ?case by simp
next
  case (Cons x p)
  from Cons.prems obtain y q' where q: "q = y # q'" by (cases q) auto
  show ?case
  proof (cases s)
    case (File c)
    then show ?thesis by simp
  next
    case (Dir es)
    show ?thesis
    proof (cases "x = y")
      case False
      then show ?thesis using Dir q by (simp add: update_conv')
    next
      case True
      then have ap: "apart p q'" using Cons.prems q by simp
      show ?thesis
        using True Dir q Cons.IH [OF ap] passable_empty
        by (simp add: update_conv' split: option.splits)
    qed
  qed
qed

lemma backup_dir_step:
  assumes s: "s = Dir es" "map_of es bk = None" and x: "x \<noteq> bk" and wf: "wf_node s"
    and kind: "resolve s (x # p) = None \<or> (\<exists>d. resolve s (x # p) = Some (Dir d))"
    and X: "passable X (x # p)" "resolve X (x # p) = Some (Dir [])"
  shows "ifExists (x # p) (copyDirectoryAsync (x # p) (bk # x # p)) (put [bk] X s)
    = Some (None, put [bk] (case resolve s (x # p) of None \<Rightarrow> X | Some n \<Rightarrow> put (x # p) n X) s)"
proof -
  let ?t = "put [bk] X s"
  have pass: "passable s [bk]" using s by simp
  have same: "resolve ?t (x # p) = resolve s (x # p)"
    using resolve_put_apart [of "[bk]" "x # p" X s] x by simp
  show ?thesis
  proof (cases "resolve s (x # p)")
    case None
    then show ?thesis using same by (simp add: ifExists_def existsSync_def skip_def del: resolve.simps put.simps)
  next
    case (Some n)
    then obtain d where d: "resolve s (x # p) = Some (Dir d)" and n: "n = Dir d"
      using kind by auto
    have w: "wf_node (Dir d)" using wf_resolve [OF wf d] .
    have a: "apart (bk # x # p) (x # p)" using x by simp
    have b: "passable ?t (bk # x # p)"
      using passable_put [OF pass, of X "x # p"] X(1) by simp
    have c: "resolve ?t (bk # x # p) = Some (Dir [])"
      using resolve_put_under [OF pass, of X "x # p"] X(2) by simp
    have "copyDirectoryAsync (x # p) (bk # x # p) ?t = Some (None, put (bk # x # p) (Dir d) ?t)"
      using copy_fresh [of ?t "x # p" d "bk # x # p"] same d w a b c by simp
    moreover have "put (bk # x # p) (Dir d) ?t = put [bk] (put (x # p) (Dir d) X) s"
      using put_put [of "[bk]" "x # p" "Dir d" X s] by simp
    ultimately show ?thesis
      using same d by (simp add: ifExists_def existsSync_def del: resolve.simps put.simps)
  qed
qed

lemma backup_file_step:
  assumes s: "s = Dir es" "map_of es bk = None" and x: "x \<noteq> bk"
    and kind: "resolve s (x # p @ [f]) = None \<or> (\<exists>c. resolve s (x # p @ [f]) = Some (File c))"
    and X: "passable X (x # p)" "resolve X (x # p) = Some (Dir [])"
  shows "ifExists (x # p @ [f]) (io (copyFile (x # p @ [f]) (bk # x # p @ [f]))) (put [bk] X s)
    = Some (None, put [bk] (case resolve s (x # p @ [f]) of None \<Rightarrow> X
                            | Some n \<Rightarrow> put (x # p) (Dir [(f, n)]) X) s)"
proof -
  let ?t = "put [bk] X s"
  have pass: "passable s [bk]" using s by simp
  have same: "resolve ?t (x # p @ [f]) = resolve s (x # p @ [f])"
    using resolve_put_apart [of "[bk]" "x # p @ [f]" X s] x by simp
  show ?thesis
  proof (cases "resolve s (x # p @ [f])")
    case None
    then show ?thesis using same by (simp add: ifExists_def existsSync_def skip_def del: resolve.simps put.simps)
  next
    case (Some n)
    then obtain c where c: "resolve s (x # p @ [f]) = Some (File c)" and n: "n = File c"
      using kind by auto
    have d: "resolve ?t (bk # x # p) = Some (Dir [])"
      using resolve_put_under [OF pass, of X "x # p"] X(2) by simp
    have "writeFile ((bk # x # p) @ [f]) c ?t = Inr (put (bk # x # p) (Dir (AList.update f (File c) [])) ?t)"
      using writeFile_entry [OF d, of f c] by simp
    moreover have "put (bk # x # p) (Dir [(f, File c)]) ?t = put [bk] (put (x # p) (Dir [(f, File c)]) X) s"
      using put_put [of "[bk]" "x # p" "Dir [(f, File c)]" X s] by simp
    ultimately have "copyFile (x # p @ [f]) (bk # x # p @ [f]) ?t
        = Inr (put [bk] (put (x # p) (Dir [(f, File c)]) X) s)"
      using same c by (simp add: copyFile_def del: resolve.simps put.simps)
    then show ?thesis
      using same c n by (simp add: ifExists_def existsSync_def io_def del: resolve.simps put.simps)
  qed
qed

lemma createBackup_body_fresh:
  assumes ready: "backup_ready s" and fresh: "resolve s (BACKUP_DIR env) = None"
  shows "createBackup_body env s = Some (None, place (backup_name (startedAt env)) (snapshot_of s) s)"
proof -
  define bk where "bk = backup_name (startedAt env)"
  obtain es where s: "s = Dir es" using ready by (cases s) (auto simp: backup_ready_def)
  have nb: "map_of es bk = None"
    using fresh s by (auto simp: BACKUP_DIR_def bk_def split: option.splits)
  have x: "''dados'' \<noteq> bk" by (simp add: bk_def backup_name_def)
  have wf: "wf_node s" using ready by (simp add: backup_ready_def)
  define X0 where "X0 = Dir [(''dados'', Dir [(''database'', Dir []), (''src'', Dir []), (''midias'', Dir [])])]"
  define X1 where "X1 = (case resolve s [''dados'', ''database''] of None \<Rightarrow> X0
     | Some n \<Rightarrow> put [''dados'', ''database''] n X0)"
  define X2 where "X2 = (case resolve s [''dados'', ''src'', ''config.json''] of None \<Rightarrow> X1
     | Some n \<Rightarrow> put [''dados'', ''src''] (Dir [(''config.json'', n)]) X1)"
  define X3 where "X3 = (case resolve s [''dados'', ''midias''] of None \<Rightarrow> X2
     | Some n \<Rightarrow> put [''dados'', ''midias''] n X2)"
  have k1: "resolve s [''dados'', ''database''] = None \<or> (\<exists>d. resolve s [''dados'', ''database''] = Some (Dir d))"
    using ready by (auto simp: backup_ready_def split: option.splits node.splits simp del: resolve.simps)
  have k2: "resolve s [''dados'', ''src'', ''config.json''] = None
      \<or> (\<exists>c. resolve s [''dados'', ''src'', ''config.json''] = Some (File c))"
    using ready by (auto simp: backup_ready_def split: option.splits node.splits simp del: resolve.simps)
  have k3: "resolve s [''dados'', ''midias''] = None \<or> (\<exists>d. resolve s [''dados'', ''midias''] = Some (Dir d))"
    using ready by (auto simp: backup_ready_def split: option.splits node.splits simp del: resolve.simps)
  have m1: "io (mkdir_recursive (BACKUP_DIR env @ [''dados'', ''database''])) s
      = Some (None, Dir (AList.update bk (Dir [(''dados'', Dir [(''database'', Dir [])])]) es))"
    using s nb by (simp add: io_def BACKUP_DIR_def bk_def)
  have m2: "io (mkdir_recursive (BACKUP_DIR env @ [''dados'', ''src'']))
        (Dir (AList.update bk (Dir [(''dados'', Dir [(''database'', Dir [])])]) es))
      = Some (None, Dir (AList.update bk (Dir [(''dados'', Dir [(''database'', Dir []), (''src'', Dir [])])]) es))"
    by (simp add: io_def BACKUP_DIR_def bk_def update_conv')
  have m3: "io (mkdir_recursive (BACKUP_DIR env @ [''dados'', ''midias'']))
        (Dir (AList.update bk (Dir [(''dados'', Dir [(''database'', Dir []), (''src'', Dir [])])]) es))
      = Some (None, put [bk] X0 s)"
    using s by (simp add: io_def BACKUP_DIR_def bk_def update_conv' X0_def)
  have p0: "passable X0 [''dados'', ''database''] \<and> resolve X0 [''dados'', ''database''] = Some (Dir [])"
    by (simp add: X0_def)
  have c1: "ifExists [''dados'', ''database'']
        (copyDirectoryAsync [''dados'', ''database''] (BACKUP_DIR env @ [''dados'', ''database'']))
        (put [bk] X0 s) = Some (None, put [bk] X1 s)"
    using backup_dir_step [OF s nb x wf k1, of X0] p0
    by (simp add: X1_def BACKUP_DIR_def bk_def del: put.simps resolve.simps)
  have p1: "passable X1 [''dados'', ''src''] \<and> resolve X1 [''dados'', ''src''] = Some (Dir [])
      \<and> passable X1 [''dados'', ''midias''] \<and> resolve X1 [''dados'', ''midias''] = Some (Dir [])"
    by (auto simp: X1_def X0_def split: option.splits)
  have c2: "ifExists [''dados'', ''src'', ''config.json'']
        (io (copyFile [''dados'', ''src'', ''config.json'']
               (BACKUP_DIR env @ [''dados'', ''src'', ''config.json''])))
        (put [bk] X1 s) = Some (None, put [bk] X2 s)"
    using backup_file_step [OF s nb x, of "[''src'']" "''config.json''" X1] k2 p1
    by (simp add: X2_def BACKUP_DIR_def bk_def del: put.simps resolve.simps)
  have p2: "passable X2 [''dados'', ''midias''] \<and> resolve X2 [''dados'', ''midias''] = Some (Dir [])"
    by (auto simp: X2_def X1_def X0_def split: option.splits)
  have c3: "ifExists [''dados'', ''midias'']
        (copyDirectoryAsync [''dados'', ''midias''] (BACKUP_DIR env @ [''dados'', ''midias'']))
        (put [bk] X2 s) = Some (None, put [bk] X3 s)"
    using backup_dir_step [OF s nb x wf k3, of X2] p2
    by (simp add: X3_def BACKUP_DIR_def bk_def del: put.simps resolve.simps)
  have fin: "X3 = snapshot_of s"
    by (auto simp: X3_def X2_def X1_def X0_def snapshot_of_def split: option.splits)
  have "createBackup_body env s = Some (None, put [bk] X3 s)"
    unfolding createBackup_body_def inOrder_Cons inOrder_Nil
    by (simp add: andThen_def m1 m2 m3 c1 c2 c3 skip_def del: put.simps resolve.simps)
  then show ?thesis
    using fin s by (simp add: place_def bk_def)
qed

lemma createBackup_fresh:
  assumes "backup_ready (disk w)" and "resolve (disk w) (BACKUP_DIR env) = None"
  shows "createBackup env w =
     Some (Done, \<lparr>disk = place (backup_name (startedAt env)) (snapshot_of (disk w)) (disk w),
                  console = console w @ [Begin CreateBackup, Succeeded CreateBackup]\<rparr>)"
  using createBackup_body_fresh [OF assms]
  by (simp add: createBackup_def attempt_def)

text \<open>
  Claim C3 says that a configured path that does not exist leaves no entry in
  the snapshot. \<open>createBackup\<close> starts by making the three directories of the
  snapshot, so on a tree without any user data the snapshot still holds a
  directory \<open>dados/database\<close>.
\<close>

theorem create_without_data_counterexample:
  "resolve (disk bare) [''dados'', ''database''] = None
   \<and> createBackup env_ok bare \<noteq> None
   \<and> fst (the (createBackup env_ok bare)) = Done
   \<and> resolve (disk (snd (the (createBackup env_ok bare)))) (BACKUP_DIR env_ok @ [''dados'', ''database''])
       = Some (Dir [])"
  by code_simp

text \<open>
  Claim C3, as amended. On a well-formed tree whose configured paths are each
  absent or of their kind, and with a snapshot location that is new,
  \<open>createBackup\<close> completes without error and the snapshot is exactly
  \<open>snapshot_of\<close> the tree. Nothing is copied for a path that does not exist:
  for an absent \<open>config.json\<close> the snapshot has no entry, and for an absent
  \<open>database\<close> or \<open>midias\<close> directory it holds only the empty directory made
  at the start.
\<close>

theorem create_skips_absent_paths:
  assumes "backup_ready (disk w)" and "resolve (disk w) (BACKUP_DIR env) = None"
  shows "\<exists>w1. createBackup env w = Some (Done, w1)
    \<and> disk w1 = place (backup_name (startedAt env)) (snapshot_of (disk w)) (disk w)
    \<and> (resolve (disk w) [''dados'', ''database''] = None \<longrightarrow>
         resolve (disk w1) (BACKUP_DIR env @ [''dados'', ''database'']) = Some (Dir []))
    \<and> (resolve (disk w) [''dados'', ''src'', ''config.json''] = None \<longrightarrow>
         resolve (disk w1) (BACKUP_DIR env @ [''dados'', ''src'']) = Some (Dir [])
         \<and> resolve (disk w1) (BACKUP_DIR env @ [''dados'', ''src'', ''config.json'']) = None)
    \<and> (resolve (disk w) [''dados'', ''midias''] = None \<longrightarrow>
         resolve (disk w1) (BACKUP_DIR env @ [''dados'', ''midias'']) = Some (Dir []))"
proof -
  obtain es where s: "disk w = Dir es"
    using assms(1) by (cases "disk w") (auto simp: backup_ready_def)
  let ?w1 = "\<lparr>disk = place (backup_name (startedAt env)) (snapshot_of (disk w)) (disk w),
                  console = console w @ [Begin CreateBackup, Succeeded CreateBackup]\<rparr>"
  have c: "createBackup env w = Some (Done, ?w1)"
    using createBackup_fresh [OF assms] .
  have r: "resolve (disk ?w1) (BACKUP_DIR env @ q) = resolve (snapshot_of (disk w)) q" for q
    using s by (simp add: place_def BACKUP_DIR_def update_conv')
  have a: "resolve (disk w) [''dados'', ''database''] = None \<Longrightarrow>
      resolve (snapshot_of (disk w)) [''dados'', ''database''] = Some (Dir [])"
    by (simp add: snapshot_of_def del: resolve.simps) simp
  have b: "resolve (disk w) [''dados'', ''src'', ''config.json''] = None \<Longrightarrow>
      resolve (snapshot_of (disk w)) [''dados'', ''src''] = Some (Dir [])
      \<and> resolve (snapshot_of (disk w)) [''dados'', ''src'', ''config.json''] = None"
    by (simp add: snapshot_of_def del: resolve.simps) simp
  have d: "resolve (disk w) [''dados'', ''midias''] = None \<Longrightarrow>
      resolve (snapshot_of (disk w)) [''dados'', ''midias''] = Some (Dir [])"
    by (simp add: snapshot_of_def del: resolve.simps) simp
  show ?thesis
    using c r a b d by (intro exI [of _ ?w1]) (simp del: resolve.simps)
qed

theorem create_skips_absent_paths_witness:
  "\<exists>w1. createBackup env_ok bare = Some (Done, w1)
    \<and> disk w1 = place (backup_name (startedAt env_ok)) (snapshot_of (disk bare)) (disk bare)
    \<and> resolve (disk w1) (BACKUP_DIR env_ok @ [''dados'', ''database'']) = Some (Dir [])
    \<and> resolve (disk w1) (BACKUP_DIR env_ok @ [''dados'', ''src'']) = Some (Dir [])
    \<and> resolve (disk w1) (BACKUP_DIR env_ok @ [''dados'', ''src'', ''config.json'']) = None
    \<and> resolve (disk w1) (BACKUP_DIR env_ok @ [''dados'', ''midias'']) = Some (Dir [])"
proof -
  have h1: "backup_ready (disk bare)" by code_simp
  have h2: "resolve (disk bare) (BACKUP_DIR env_ok) = None" by code_simp
  have h3: "resolve (disk bare) [''dados'', ''database''] = None
     \<and> resolve (disk bare) [''dados'', ''src'', ''config.json''] = None
     \<and> resolve (disk bare) [''dados'', ''midias''] = None" by code_simp
  show ?thesis
    using create_skips_absent_paths [OF h1 h2] h3 by (simp del: resolve.simps)
qed

lemma restore_dir_step:
  assumes "resolve t (bk # p) = Some (Dir d)" and "wf_node (Dir d)" and "x \<noteq> bk" and "p = x # p'"
    and "passable t p" and "resolve t p = Some (Dir [])"
  shows "ifExists (bk # p) (copyDirectoryAsync (bk # p) p) t = Some (None, put p (Dir d) t)"
proof -
  have "apart p (bk # p)" using assms(3,4) by simp
  then have "copyDirectoryAsync (bk # p) p t = Some (None, put p (Dir d) t)"
    using copy_fresh [OF assms(1,2) _ assms(5)] assms(6) by simp
  then show ?thesis using assms(1) by (simp add: ifExists_def existsSync_def del: resolve.simps)
qed

lemma passable_put_self: "passable s p \<Longrightarrow> passable (put p v s) p"
  using passable_put [of s p v "[]"] by simp

text \<open>
  Claim C1 (restore round-trip). Take a well-formed tree that has the database
  directory, the configuration file and the media directory, and in which the
  snapshot location is new. Then \<open>createBackup\<close> completes; after the three
  live paths are deleted, \<open>restoreBackup\<close> completes too, and each of the
  three paths resolves to exactly what it held before: the same directory
  trees, entry by entry, and the same file content.
\<close>

theorem restore_round_trip:
  assumes wf: "wf_node (disk w)"
    and db: "resolve (disk w) [''dados'', ''database''] = Some (Dir db)"
    and cfg: "resolve (disk w) [''dados'', ''src'', ''config.json''] = Some (File cfg)"
    and md: "resolve (disk w) [''dados'', ''midias''] = Some (Dir md)"
    and fresh: "resolve (disk w) (BACKUP_DIR env) = None"
  shows "\<exists>w1 w2. createBackup env w = Some (Done, w1)
    \<and> resolve (deleteLivePaths (disk w1)) [''dados'', ''database''] = None
    \<and> resolve (deleteLivePaths (disk w1)) [''dados'', ''src'', ''config.json''] = None
    \<and> resolve (deleteLivePaths (disk w1)) [''dados'', ''midias''] = None
    \<and> restoreBackup env (w1\<lparr>disk := deleteLivePaths (disk w1)\<rparr>) = Some (Done, w2)
    \<and> resolve (disk w2) [''dados'', ''database''] = Some (Dir db)
    \<and> resolve (disk w2) [''dados'', ''src'', ''config.json''] = Some (File cfg)
    \<and> resolve (disk w2) [''dados'', ''midias''] = Some (Dir md)"
proof -
  define bk where "bk = backup_name (startedAt env)"
  have B: "BACKUP_DIR env = [bk]" by (simp add: BACKUP_DIR_def bk_def)
  have x: "''dados'' \<noteq> bk" by (simp add: bk_def backup_name_def)
  obtain es ds sr where s: "disk w = Dir es" and es: "map_of es ''dados'' = Some (Dir ds)"
    and ds1: "map_of ds ''database'' = Some (Dir db)"
    and ds2: "map_of ds ''src'' = Some (Dir sr)"
    and sr1: "map_of sr ''config.json'' = Some (File cfg)"
    and ds3: "map_of ds ''midias'' = Some (Dir md)"
    using db cfg md by (cases "disk w") (auto split: option.splits node.splits)
  have nb: "map_of es bk = None"
    using fresh s B by (auto split: option.splits)
  have ready: "backup_ready (disk w)"
    using wf s es ds1 ds2 sr1 ds3 by (simp add: backup_ready_def)
  define SNAP where "SNAP = Dir [(''dados'', Dir [(''database'', Dir db),
      (''src'', Dir [(''config.json'', File cfg)]), (''midias'', Dir md)])]"
  have snap: "snapshot_of (disk w) = SNAP"
    using s es ds1 ds2 sr1 ds3 by (simp add: snapshot_of_def SNAP_def)
  define w1 where "w1 = \<lparr>disk = Dir (AList.update bk SNAP es),
      console = console w @ [Begin CreateBackup, Succeeded CreateBackup]\<rparr>"
  have c: "createBackup env w = Some (Done, w1)"
    using createBackup_fresh [OF ready fresh] snap s by (simp add: w1_def place_def bk_def)
  define S2 where "S2 = deleteLivePaths (disk w1)"
  define sr2 where "sr2 = AList.delete ''config.json'' sr"
  define ds' where "ds' = AList.delete ''midias'' (AList.update ''src'' (Dir sr2) (AList.delete ''database'' ds))"
  have S2: "S2 = Dir (AList.update ''dados'' (Dir ds') (AList.update bk SNAP es))"
    using x es ds1 ds2 sr1 ds3
    by (simp add: S2_def deleteLivePaths_def w1_def update_conv' delete_conv' ds'_def sr2_def)
  have wdb: "wf_node (Dir db)" using wf_resolve [OF wf db] .
  have wmd: "wf_node (Dir md)" using wf_resolve [OF wf md] .
  have g1: "resolve S2 [''dados'', ''database''] = None"
    "resolve S2 [''dados'', ''src'', ''config.json''] = None"
    "resolve S2 [''dados'', ''midias''] = None"
    using x by (simp_all add: S2 update_conv' delete_conv' ds'_def sr2_def)
  have g2: "resolve S2 [''dados'', ''src''] = Some (Dir sr2)" "map_of sr2 ''config.json'' = None"
    using x by (simp_all add: S2 update_conv' delete_conv' ds'_def sr2_def)
  have g3: "passable S2 [''dados'', ''database'']" "passable S2 [''dados'', ''midias'']"
    "passable S2 [''dados'', ''src'']"
    using x by (simp_all add: S2 update_conv' delete_conv' ds'_def sr2_def)
  have g4: "resolve S2 [bk, ''dados'', ''database''] = Some (Dir db)"
    "resolve S2 [bk, ''dados'', ''src'', ''config.json''] = Some (File cfg)"
    "resolve S2 [bk, ''dados'', ''midias''] = Some (Dir md)"
    using x by (simp_all add: S2 update_conv' SNAP_def)
  define T1 where "T1 = put [''dados'', ''database''] (Dir []) S2"
  define T2 where "T2 = put [''dados'', ''midias''] (Dir []) T1"
  define T3 where "T3 = put [''dados'', ''database''] (Dir db) T2"
  define T4 where "T4 = put [''dados'', ''src''] (Dir (AList.update ''config.json'' (File cfg) sr2)) T3"
  define T5 where "T5 = put [''dados'', ''midias''] (Dir md) T4"
  note [simp del] = put.simps resolve.simps passable.simps
  note [simp] = resolve_put_apart passable_put_apart
  have m1: "io (mkdir_recursive [''dados'', ''database'']) S2 = Some (None, T1)"
    using mkdir_fresh [OF g3(1) g1(1)] by (simp add: io_def T1_def)
  have m2: "io (mkdir_recursive [''dados'', ''src'']) T1 = Some (None, T1)"
    using mkdir_existing [of T1 "[''dados'', ''src'']" sr2] g2 by (simp add: io_def T1_def)
  have m3: "io (mkdir_recursive [''dados'', ''midias'']) T1 = Some (None, T2)"
    using mkdir_fresh [of T1 "[''dados'', ''midias'']"] g3 g1 by (simp add: io_def T1_def T2_def)
  have pT1: "passable T1 [''dados'', ''database'']" "resolve T1 [''dados'', ''database''] = Some (Dir [])"
    using passable_put_self [OF g3(1), of "Dir []"] resolve_put_self [OF g3(1), of "Dir []"]
    by (simp_all add: T1_def)
  have pT2: "passable T2 [''dados'', ''midias'']" "resolve T2 [''dados'', ''midias''] = Some (Dir [])"
    using passable_put_self [of T1 "[''dados'', ''midias'']" "Dir []"]
      resolve_put_self [of T1 "[''dados'', ''midias'']" "Dir []"] g3
    by (simp_all add: T2_def T1_def)
  have c1: "ifExists (BACKUP_DIR env @ [''dados'', ''database''])
      (copyDirectoryAsync (BACKUP_DIR env @ [''dados'', ''database'']) [''dados'', ''database'']) T2
      = Some (None, T3)"
    using restore_dir_step [of T2 bk "[''dados'', ''database'']" db "''dados''" "[''database'']"]
      g4 wdb x pT1
    by (simp add: B T3_def T2_def T1_def)
  have sT3: "resolve T3 [''dados'', ''src''] = Some (Dir sr2)"
    using g2 by (simp add: T3_def T2_def T1_def)
  have "writeFile ([''dados'', ''src''] @ [''config.json'']) cfg T3 = Inr T4"
    using writeFile_entry [OF sT3 g2(2), of cfg] by (simp add: T4_def)
  then have c2: "ifExists (BACKUP_DIR env @ [''dados'', ''src'', ''config.json''])
      (io (copyFile (BACKUP_DIR env @ [''dados'', ''src'', ''config.json''])
             [''dados'', ''src'', ''config.json''])) T3 = Some (None, T4)"
    using g4 x
    by (simp add: B ifExists_def existsSync_def io_def copyFile_def T3_def T2_def T1_def)
  have pT4: "passable T4 [''dados'', ''midias'']" "resolve T4 [''dados'', ''midias''] = Some (Dir [])"
    using pT2 by (simp_all add: T4_def T3_def)
  have c3: "ifExists (BACKUP_DIR env @ [''dados'', ''midias''])
      (copyDirectoryAsync (BACKUP_DIR env @ [''dados'', ''midias'']) [''dados'', ''midias'']) T4
      = Some (None, T5)"
    using restore_dir_step [of T4 bk "[''dados'', ''midias'']" md "''dados''" "[''midias'']"]
      g4 wmd x pT4
    by (simp add: B T5_def T4_def T3_def T2_def T1_def)
  have body: "restoreBackup_body env S2 = Some (None, T5)"
    unfolding restoreBackup_body_def inOrder_Cons inOrder_Nil
    by (simp add: andThen_def m1 m2 m3 c1 c2 c3 skip_def)
  define w2 where "w2 = \<lparr>disk = T5,
      console = console w1 @ [Begin RestoreBackup, Succeeded RestoreBackup]\<rparr>"
  have r: "restoreBackup env (w1\<lparr>disk := deleteLivePaths (disk w1)\<rparr>) = Some (Done, w2)"
    using body by (simp add: restoreBackup_def attempt_def S2_def w2_def)
  have pT2db: "passable T2 [''dados'', ''database'']"
    using pT1 by (simp add: T2_def)
  have f1: "resolve T5 [''dados'', ''database''] = Some (Dir db)"
    using resolve_put_self [OF pT2db, of "Dir db"] by (simp add: T5_def T4_def T3_def)
  have pT3src: "passable T3 [''dados'', ''src'']"
    using g3 by (simp add: T3_def T2_def T1_def)
  have f2a: "resolve T4 [''dados'', ''src'', ''config.json'']
      = resolve (Dir (AList.update ''config.json'' (File cfg) sr2)) [''config.json'']"
    using resolve_put_under [OF pT3src, of "Dir (AList.update ''config.json'' (File cfg) sr2)" "[''config.json'']"]
    by (simp add: T4_def)
  have f2b: "resolve (Dir (AList.update ''config.json'' (File cfg) sr2)) [''config.json''] = Some (File cfg)"
    by (simp add: resolve.simps update_conv')
  have f2: "resolve T5 [''dados'', ''src'', ''config.json''] = Some (File cfg)"
    using f2a f2b by (simp add: T5_def)
  have f3: "resolve T5 [''dados'', ''midias''] = Some (Dir md)"
    using resolve_put_self [OF pT4(1), of "Dir md"] by (simp add: T5_def)
  show ?thesis
    using c r g1 f1 f2 f3 by (intro exI [of _ w1] exI [of _ w2]) (simp add: S2_def w2_def)
qed

lemma andThen_success:
  assumes "andThen a b s = Some (None, s')"
  obtains s1 where "a s = Some (None, s1)" and "b s1 = Some (None, s')"
  using assms by (auto simp: andThen_def split: option.splits prod.splits)

lemma io_success:
  assumes "io f s = Some (None, s')"
  shows "f s = Inr s'"
  using assms by (auto simp: io_def split: sum.splits)

lemma apart_prefixed: "apart p q \<Longrightarrow> apart (r @ p) (r @ q)"
  by (induction r) auto

lemma resolve_prefix: "resolve s (p @ q) = Some n \<Longrightarrow> resolve s p \<noteq> None"
proof (induction p arbitrary: s)
  case Nil
  then show ?case by simp
next
  case (Cons x p)
  then show ?case by (cases s) (auto split: option.splits)
qed

lemma copyDirectoryAsync_frame:
  "copyDirectoryAsync src dst s = Some (r, s') \<Longrightarrow> apart dst q \<Longrightarrow> resolve s' q = resolve s q"
  unfolding copyDirectoryAsync_def using copy_frame [of "CopyDir src dst" s r s' q] by simp

lemma ifExists_copy_frame:
  "ifExists p (copyDirectoryAsync src dst) s = Some (r, s') \<Longrightarrow> apart dst q \<Longrightarrow>
   resolve s' q = resolve s q"
  by (auto simp: ifExists_def skip_def dest: copyDirectoryAsync_frame split: if_splits)

lemma transfer_success:
  fixes src dst :: path
  assumes run: "inOrder
       [io (mkdir_recursive (dst @ [''dados'', ''database''])),
        io (mkdir_recursive (dst @ [''dados'', ''src''])),
        io (mkdir_recursive (dst @ [''dados'', ''midias''])),
        ifExists (src @ [''dados'', ''database''])
          (copyDirectoryAsync (src @ [''dados'', ''database'']) (dst @ [''dados'', ''database''])),
        ifExists (src @ [''dados'', ''src'', ''config.json''])
          (io (copyFile (src @ [''dados'', ''src'', ''config.json''])
                 (dst @ [''dados'', ''src'', ''config.json'']))),
        ifExists (src @ [''dados'', ''midias''])
          (copyDirectoryAsync (src @ [''dados'', ''midias'']) (dst @ [''dados'', ''midias'']))] s
      = Some (None, s')"
    and ap: "\<And>p q. apart (dst @ ''dados'' # p) (src @ ''dados'' # q)"
    and db: "resolve s (src @ [''dados'', ''database'', ''db.json'']) = Some (File v)"
    and cfg: "resolve s (src @ [''dados'', ''src'', ''config.json'']) = Some (File c)"
  shows "resolve s' (dst @ [''dados'', ''database'', ''db.json'']) = Some (File v)
    \<and> resolve s' (dst @ [''dados'', ''src'', ''config.json'']) = Some (File c)"
proof -
  note [simp del] = resolve.simps
  from run obtain s1 s2 s3 s4 s5 where
    m1: "mkdir_recursive (dst @ [''dados'', ''database'']) s = Inr s1" and
    m2: "mkdir_recursive (dst @ [''dados'', ''src'']) s1 = Inr s2" and
    m3: "mkdir_recursive (dst @ [''dados'', ''midias'']) s2 = Inr s3" and
    c1: "ifExists (src @ [''dados'', ''database''])
          (copyDirectoryAsync (src @ [''dados'', ''database'']) (dst @ [''dados'', ''database''])) s3
          = Some (None, s4)" and
    c2: "ifExists (src @ [''dados'', ''src'', ''config.json''])
          (io (copyFile (src @ [''dados'', ''src'', ''config.json''])
                 (dst @ [''dados'', ''src'', ''config.json'']))) s4 = Some (None, s5)" and
    c3: "ifExists (src @ [''dados'', ''midias''])
          (copyDirectoryAsync (src @ [''dados'', ''midias'']) (dst @ [''dados'', ''midias''])) s5
          = Some (None, s')"
    unfolding inOrder_Cons inOrder_Nil
    by (elim andThen_success) (auto dest!: io_success simp: skip_def)
  have live: "resolve s3 (src @ ''dados'' # q) = resolve s (src @ ''dados'' # q)" for q
    using mkdir_frame [OF m1, of "src @ ''dados'' # q"] mkdir_frame [OF m2, of "src @ ''dados'' # q"]
      mkdir_frame [OF m3, of "src @ ''dados'' # q"] ap by simp
  have db3: "resolve s3 ((src @ [''dados'', ''database'']) @ [''db.json'']) = Some (File v)"
    using live [of "[''database'', ''db.json'']"] db by simp
  have e1: "existsSync (src @ [''dados'', ''database'']) s3"
    using resolve_prefix [OF db3] by (simp add: existsSync_def)
  then have "copy_run (CopyDir (src @ [''dados'', ''database'']) (dst @ [''dados'', ''database''])) s3
      = Some (None, s4)"
    using c1 by (simp add: ifExists_def copyDirectoryAsync_def)
  then have db4: "resolve s4 ((dst @ [''dados'', ''database'']) @ [''db.json'']) = Some (File v)"
    using copy_dir_files [of "src @ [''dados'', ''database'']" "dst @ [''dados'', ''database'']" s3 s4
        "''db.json''" v] db3 ap [of "[''database'']" "[''database'']"] by simp
  have cfg4: "resolve s4 (src @ [''dados'', ''src'', ''config.json'']) = Some (File c)"
    using ifExists_copy_frame [OF c1, of "src @ [''dados'', ''src'', ''config.json'']"]
      ap [of "[''database'']" "[''src'', ''config.json'']"] live [of "[''src'', ''config.json'']"] cfg
    by simp
  then have "copyFile (src @ [''dados'', ''src'', ''config.json''])
      (dst @ [''dados'', ''src'', ''config.json'']) s4 = Inr s5"
    using c2 by (auto simp: ifExists_def existsSync_def dest: io_success)
  then have cfg5: "resolve s5 (dst @ [''dados'', ''src'', ''config.json'']) = Some (File c)"
    and db5: "resolve s5 (dst @ [''dados'', ''database'', ''db.json'']) = Some (File v)"
    using copyFile_result [of "src @ [''dados'', ''src'', ''config.json'']"
        "dst @ [''dados'', ''src'', ''config.json'']" s4 s5] cfg4
      copyFile_frame [of "src @ [''dados'', ''src'', ''config.json'']"
        "dst @ [''dados'', ''src'', ''config.json'']" s4 s5 "dst @ [''dados'', ''database'', ''db.json'']"]
      apart_prefixed [of "[''dados'', ''src'', ''config.json'']" "[''dados'', ''database'', ''db.json'']" dst]
      db4
    by simp_all
  have "resolve s' (dst @ [''dados'', ''database'', ''db.json'']) = resolve s5 (dst @ [''dados'', ''database'', ''db.json''])"
    using ifExists_copy_frame [OF c3, of "dst @ [''dados'', ''database'', ''db.json'']"]
      apart_prefixed [of "[''dados'', ''midias'']" "[''dados'', ''database'', ''db.json'']" dst]
    by simp
  moreover have "resolve s' (dst @ [''dados'', ''src'', ''config.json'']) = resolve s5 (dst @ [''dados'', ''src'', ''config.json''])"
    using ifExists_copy_frame [OF c3, of "dst @ [''dados'', ''src'', ''config.json'']"]
      apart_prefixed [of "[''dados'', ''midias'']" "[''dados'', ''src'', ''config.json'']" dst]
    by simp
  ultimately show ?thesis using db5 cfg5 by simp
qed

lemma applyEntries_frame:
  "applyEntries files s = Some (r, s') \<Longrightarrow> y \<notin> set files \<Longrightarrow>
   resolve s' (y # q) = resolve s (y # q)"
proof (induction files arbitrary: s)
  case Nil
  then show ?case by (simp add: skip_def)
next
  case (Cons f files)
  note [simp del] = resolve.simps
  have fy: "f \<noteq> y" and rest: "y \<notin> set files" using Cons.prems(2) by auto
  show ?case
  proof (cases "stat (TEMP_DIR @ [f]) s")
    case (Inl e)
    then show ?thesis using Cons.prems(1) by simp
  next
    case (Inr stats)
    let ?a = "if isDirectory stats then copyDirectoryAsync (TEMP_DIR @ [f]) [f]
              else io (copyFile (TEMP_DIR @ [f]) [f])"
    have run: "andThen ?a (applyEntries files) s = Some (r, s')"
      using Cons.prems(1) Inr by simp
    have fr: "resolve s1 (y # q) = resolve s (y # q)" if "?a s = Some (r1, s1)" for r1 s1
      using that fy copyDirectoryAsync_frame [of "TEMP_DIR @ [f]" "[f]" s r1 s1 "y # q"]
        copyFile_frame [of "TEMP_DIR @ [f]" "[f]" s s1 "y # q"]
      by (auto simp: io_def split: if_splits sum.splits)
    from run obtain r1 s1 where a: "?a s = Some (r1, s1)"
      and b: "(r1 \<noteq> None \<and> s' = s1) \<or> (r1 = None \<and> applyEntries files s1 = Some (r, s'))"
      by (auto simp: andThen_def split: option.splits prod.splits)
    show ?thesis
      using b fr [OF a] Cons.IH [OF _ rest] by auto
  qed
qed

lemma preserves_mkdir: "apart p q \<Longrightarrow> preserves q (io (mkdir_recursive p))"
  by (rule preserves_io) (rule mkdir_frame)

lemma preserves_copyFile: "apart dst q \<Longrightarrow> preserves q (io (copyFile src dst))"
  by (rule preserves_io) (rule copyFile_frame)

lemma preserves_copyDirectoryAsync: "apart dst q \<Longrightarrow> preserves q (copyDirectoryAsync src dst)"
  unfolding preserves_def using copyDirectoryAsync_frame by blast

theorem restore_round_trip_witness:
  \<open>\<exists>w1 w2. createBackup env_ok full_data = Some (Done, w1)
    \<and> resolve (deleteLivePaths (disk w1)) [''dados'', ''database''] = None
    \<and> resolve (deleteLivePaths (disk w1)) [''dados'', ''src'', ''config.json''] = None
    \<and> resolve (deleteLivePaths (disk w1)) [''dados'', ''midias''] = None
    \<and> restoreBackup env_ok (w1\<lparr>disk := deleteLivePaths (disk w1)\<rparr>) = Some (Done, w2)
    \<and> resolve (disk w2) [''dados'', ''database'']
        = Some (Dir [(''db.json'', File ''{"v":1}''),
                     (''grupos'', Dir [(''g1.json'', File ''[]''), (''vazio'', Dir [])])])
    \<and> resolve (disk w2) [''dados'', ''src'', ''config.json''] = Some (File ''{"prefixo":"!"}'')
    \<and> resolve (disk w2) [''dados'', ''midias''] = Some (Dir [(''menu.jpg'', File ''JPG'')])\<close>
proof -
  have h1: "wf_node (disk full_data)" by code_simp
  have h2: \<open>resolve (disk full_data) [''dados'', ''database'']
        = Some (Dir [(''db.json'', File ''{"v":1}''),
                     (''grupos'', Dir [(''g1.json'', File ''[]''), (''vazio'', Dir [])])])\<close>
    by code_simp
  have h3: \<open>resolve (disk full_data) [''dados'', ''src'', ''config.json''] = Some (File ''{"prefixo":"!"}'')\<close>
    by code_simp
  have h4: "resolve (disk full_data) [''dados'', ''midias''] = Some (Dir [(''menu.jpg'', File ''JPG'')])"
    by code_simp
  have h5: "resolve (disk full_data) (BACKUP_DIR env_ok) = None" by code_simp
  show ?thesis
    using restore_round_trip [OF h1 h2 h3 h4 h5] .
qed

section \<open>The life of the snapshot\<close>

text \<open>
  No step before \<open>cleanup\<close> takes the snapshot directory away once it is
  there: the copies and the \<open>mkdir\<close> calls never remove a path, and every
  removal of the other steps is aimed elsewhere. The package installer is an
  outside program; it is asked to leave the snapshot alone.
\<close>

lemma keepsD: "keeps q a \<Longrightarrow> a s = Some (r, s') \<Longrightarrow> resolve s q \<noteq> None \<Longrightarrow> resolve s' q \<noteq> None"
  unfolding keeps_def by blast

lemma preserves_keeps: "preserves q a \<Longrightarrow> keeps q a"
  unfolding keeps_def preserves_def by metis

lemma keeps_skip: "keeps q skip"
  by (simp add: keeps_def skip_def)

lemma keeps_andThen:
  assumes "keeps q a" and "keeps q b"
  shows "keeps q (andThen a b)"
  unfolding keeps_def
proof (intro allI impI)
  fix s r s'
  assume h: "andThen a b s = Some (r, s')" and e: "resolve s q \<noteq> None"
  from h obtain r1 s1 where a: "a s = Some (r1, s1)"
    and b: "(r1 \<noteq> None \<and> s' = s1) \<or> (r1 = None \<and> b s1 = Some (r, s'))"
    by (auto simp: andThen_def split: option.splits prod.splits)
  have "resolve s1 q \<noteq> None" using keepsD [OF assms(1) a e] .
  then show "resolve s' q \<noteq> None" using b keepsD [OF assms(2)] by auto
qed

lemma keeps_inOrder: "(\<And>a. a \<in> set acts \<Longrightarrow> keeps q a) \<Longrightarrow> keeps q (inOrder acts)"
  unfolding inOrder_def
  by (induction acts) (simp_all add: keeps_skip keeps_andThen)

lemma keeps_ifExists: "keeps q a \<Longrightarrow> keeps q (ifExists p a)"
  by (auto simp: keeps_def ifExists_def skip_def)

lemma keeps_io:
  "(\<And>s s'. f s = Inr s' \<Longrightarrow> resolve s q \<noteq> None \<Longrightarrow> resolve s' q \<noteq> None) \<Longrightarrow> keeps q (io f)"
  by (auto simp: keeps_def io_def split: sum.splits)

lemma mkdir_exists:
  "mkdir_recursive p s = Inr s' \<Longrightarrow> resolve s q \<noteq> None \<Longrightarrow> resolve s' q \<noteq> None"
proof (induction p arbitrary: s s' q)
  case Nil
  then show ?case by (cases s) auto
next
  case (Cons x p)
  from Cons.prems(1) obtain es where s: "s = Dir es" by (cases s) auto
  let ?ch = "case map_of es x of None \<Rightarrow> Dir [] | Some ch \<Rightarrow> ch"
  from Cons.prems(1) s obtain ch' where
    m: "mkdir_recursive p ?ch = Inr ch'" and s': "s' = Dir (AList.update x ch' es)"
    by (auto split: sum.splits)
  show ?case
  proof (cases q)
    case Nil
    then show ?thesis by simp
  next
    case (Cons y q')
    show ?thesis
    proof (cases "x = y")
      case False
      then show ?thesis using Cons.prems(2) s s' Cons by (simp add: update_conv')
    next
      case True
      then obtain ch where ch: "map_of es x = Some ch" and r: "resolve ch q' \<noteq> None"
        using Cons.prems(2) s Cons by (auto split: option.splits)
      then have "resolve ch' q' \<noteq> None" using Cons.IH [OF _ r] m by simp
      then show ?thesis using True s' Cons by (simp add: update_conv')
    qed
  qed
qed

lemma writeFile_exists:
  "writeFile p c s = Inr s' \<Longrightarrow> resolve s q \<noteq> None \<Longrightarrow> resolve s' q \<noteq> None"
proof (induction p arbitrary: s s' q)
  case Nil
  then show ?case by (cases s; cases q) auto
next
  case (Cons x p)
  from Cons.prems(1) obtain es where s: "s = Dir es" by (cases s) auto
  show ?case
  proof (cases q)
    case Nil
    then show ?thesis by simp
  next
    case q: (Cons y q')
    show ?thesis
    proof (cases "map_of es x")
      case None
      then have s': "s' = Dir (AList.update x (File c) es)"
        using Cons.prems(1) s by (auto split: if_splits)
      have "x \<noteq> y" using None Cons.prems(2) s q by (auto split: option.splits)
      then show ?thesis using Cons.prems(2) s s' q by (simp add: update_conv')
    next
      case (Some ch)
      then obtain ch' where w: "writeFile p c ch = Inr ch'" and s': "s' = Dir (AList.update x ch' es)"
        using Cons.prems(1) s by (auto split: sum.splits)
      show ?thesis
      proof (cases "x = y")
        case False
        then show ?thesis using Cons.prems(2) s s' q by (simp add: update_conv')
      next
        case True
        then have "resolve ch q' \<noteq> None" using Cons.prems(2) s q Some by simp
        then have "resolve ch' q' \<noteq> None" using Cons.IH [OF w] by simp
        then show ?thesis using True s' q by (simp add: update_conv')
      qed
    qed
  qed
qed

lemma copyFile_exists:
  "copyFile src dst s = Inr s' \<Longrightarrow> resolve s q \<noteq> None \<Longrightarrow> resolve s' q \<noteq> None"
  by (auto simp: copyFile_def split: option.splits node.splits dest: writeFile_exists)

lemma copy_exists_aux:
  assumes "copy_run t s = Some y"
  shows "resolve s q \<noteq> None \<longrightarrow> resolve (snd y) q \<noteq> None"
proof (rule copy_run.raw_induct
    [where P = "\<lambda>t s y. resolve s q \<noteq> None \<longrightarrow> resolve (snd y) q \<noteq> None", OF _ assms],
    goal_cases)
  case (1 copy t s y)
  show ?case
  proof (intro impI)
    assume e: "resolve s q \<noteq> None"
    show "resolve (snd y) q \<noteq> None"
    proof (cases t)
      case (CopyDir source destination)
      show ?thesis
      proof (cases "if existsSync destination s then Inr s else mkdir_recursive destination s")
        case (Inl err)
        then show ?thesis using 1(2) CopyDir e by auto
      next
        case (Inr s1)
        have a: "resolve s1 q \<noteq> None"
          using Inr mkdir_exists e by (auto split: if_splits)
        show ?thesis
        proof (cases "readdir source s1")
          case (Inl err)
          then show ?thesis using 1(2) CopyDir Inr a by auto
        next
          case names: (Inr names)
          then have "copy (CopyEntries names source destination) s1 = Some y"
            using 1(2) CopyDir Inr by simp
          then show ?thesis using 1(1) a by blast
        qed
      qed
    next
      case (CopyEntries names source destination)
      show ?thesis
      proof (cases names)
        case Nil
        then show ?thesis using 1(2) CopyEntries e by auto
      next
        case (Cons entry rest)
        show ?thesis
        proof (cases "stat (source @ [entry]) s")
          case (Inl err)
          then show ?thesis using 1(2) CopyEntries Cons e by auto
        next
          case (Inr stats)
          show ?thesis
          proof (cases "isDirectory stats")
            case True
            then obtain r1 s1 where
              c1: "copy (CopyDir (source @ [entry]) (destination @ [entry])) s = Some (r1, s1)" and
              c2: "(case r1 of Some err \<Rightarrow> Some (Some err, s1)
                    | None \<Rightarrow> copy (CopyEntries rest source destination) s1) = Some y"
              using 1(2) CopyEntries Cons Inr
              by (auto simp: bind_eq_Some_conv)
            have a: "resolve s1 q \<noteq> None"
              using 1(1) [OF c1] e by simp
            show ?thesis
            proof (cases r1)
              case None
              then have "copy (CopyEntries rest source destination) s1 = Some y" using c2 by simp
              then show ?thesis using 1(1) a by blast
            next
              case (Some err)
              then show ?thesis using c2 a by auto
            qed
          next
            case False
            show ?thesis
            proof (cases "copyFile (source @ [entry]) (destination @ [entry]) s")
              case (Inl err)
              then show ?thesis using 1(2) CopyEntries Cons Inr False e by auto
            next
              case s1: (Inr s1)
              then have c: "copy (CopyEntries rest source destination) s1 = Some y"
                using 1(2) CopyEntries Cons Inr False by simp
              have "resolve s1 q \<noteq> None" using copyFile_exists [OF s1 e] .
              then show ?thesis using 1(1) [OF c] by simp
            qed
          qed
        qed
      qed
    qed
  qed
qed

lemma keeps_copyDirectoryAsync: "keeps q (copyDirectoryAsync src dst)"
  unfolding keeps_def copyDirectoryAsync_def
  using copy_exists_aux by fastforce

lemma keeps_mkdir: "keeps q (io (mkdir_recursive p))"
  by (rule keeps_io) (rule mkdir_exists)

lemma keeps_copyFile: "keeps q (io (copyFile src dst))"
  by (rule keeps_io) (rule copyFile_exists)

lemma keeps_createBackup_body: "keeps q (createBackup_body env)"
  unfolding createBackup_body_def
  by (intro keeps_inOrder)
    (auto intro!: keeps_ifExists keeps_mkdir keeps_copyFile keeps_copyDirectoryAsync)

lemma keeps_restoreBackup_body: "keeps q (restoreBackup_body env)"
  unfolding restoreBackup_body_def
  by (intro keeps_inOrder)
    (auto intro!: keeps_ifExists keeps_mkdir keeps_copyFile keeps_copyDirectoryAsync)

lemma keeps_applyEntries: "keeps q (applyEntries names)"
proof (induction names)
  case Nil
  then show ?case by (simp add: keeps_skip)
next
  case (Cons f names)
  have "keeps q (andThen
      (if isDirectory stats then copyDirectoryAsync (TEMP_DIR @ [f]) [f]
       else io (copyFile (TEMP_DIR @ [f]) [f])) (applyEntries names))" for stats
    using Cons.IH by (intro keeps_andThen) (auto intro: keeps_copyFile keeps_copyDirectoryAsync)
  then show ?case
    unfolding keeps_def by (auto split: sum.splits)
qed

lemma keeps_applyUpdate_body:
  assumes "y \<noteq> ''temp_richbess''"
  shows "keeps (y # q) (applyUpdate_body env)"
proof -
  have "keeps (y # q) (andThen (applyEntries names) (ifExists TEMP_DIR (io (removeTree env TEMP_DIR))))"
    for names
    using assms
    by (intro keeps_andThen keeps_applyEntries preserves_keeps preserves_ifExists)
      (simp add: TEMP_DIR_def preserves_removeTree)
  then show ?thesis
    unfolding keeps_def applyUpdate_body_def by (auto split: sum.splits)
qed

lemma mkdir_result: "mkdir_recursive p s = Inr s' \<Longrightarrow> \<exists>ds. resolve s' p = Some (Dir ds)"
proof (induction p arbitrary: s s')
  case Nil
  then show ?case by (cases s) auto
next
  case (Cons x p)
  from Cons.prems obtain es where s: "s = Dir es" by (cases s) auto
  let ?ch = "case map_of es x of None \<Rightarrow> Dir [] | Some ch \<Rightarrow> ch"
  from Cons.prems s obtain ch' where
    m: "mkdir_recursive p ?ch = Inr ch'" and s': "s' = Dir (AList.update x ch' es)"
    by (auto split: sum.splits)
  then show ?case using Cons.IH [OF m] by (simp add: update_conv')
qed

lemma createBackup_makes_snapshot:
  assumes "createBackup env w = Some (Done, w')"
  shows "existsSync (BACKUP_DIR env) (disk w')"
proof -
  from assms have b: "createBackup_body env (disk w) = Some (None, disk w')"
    unfolding createBackup_def by (cases rule: attempt_cases) auto
  let ?rest = "inOrder
       [io (mkdir_recursive (BACKUP_DIR env @ [''dados'', ''src''])),
        io (mkdir_recursive (BACKUP_DIR env @ [''dados'', ''midias''])),
        ifExists [''dados'', ''database'']
          (copyDirectoryAsync [''dados'', ''database''] (BACKUP_DIR env @ [''dados'', ''database''])),
        ifExists [''dados'', ''src'', ''config.json'']
          (io (copyFile [''dados'', ''src'', ''config.json'']
                 (BACKUP_DIR env @ [''dados'', ''src'', ''config.json'']))),
        ifExists [''dados'', ''midias'']
          (copyDirectoryAsync [''dados'', ''midias''] (BACKUP_DIR env @ [''dados'', ''midias'']))]"
  from b obtain s1 where
    m: "io (mkdir_recursive (BACKUP_DIR env @ [''dados'', ''database''])) (disk w) = Some (None, s1)"
    and r: "?rest s1 = Some (None, disk w')"
    unfolding createBackup_body_def inOrder_Cons [of "io (mkdir_recursive (BACKUP_DIR env @ [''dados'', ''database'']))"]
    by (elim andThen_success)
  have "\<exists>ds. resolve s1 (BACKUP_DIR env @ [''dados'', ''database'']) = Some (Dir ds)"
    using mkdir_result io_success [OF m] by blast
  then have e: "resolve s1 (BACKUP_DIR env) \<noteq> None"
    using resolve_prefix by blast
  have "keeps (BACKUP_DIR env) ?rest"
    by (intro keeps_inOrder)
      (auto intro!: keeps_ifExists keeps_mkdir keeps_copyFile keeps_copyDirectoryAsync)
  then show ?thesis
    using keepsD [of "BACKUP_DIR env" ?rest s1 None "disk w'"] r e by (simp add: existsSync_def)
qed

lemma cleanup_never_raises: "\<exists>w'. cleanup env w = Some (Done, w')"
  by (simp add: cleanup_def split: sum.splits)

lemma cleanup_failure_logged:
  assumes "isWindows env" and "resolve (disk w) (BACKUP_DIR env) = Some (File c)"
  shows "cleanup env w = Some (Done, say [Begin Cleanup, Failed Cleanup ECommand] w)"
  using assms by (simp add: cleanup_def existsSync_def removeTree_def rmdir_s_q_def)

lemma snapshot_kept:
  assumes k: "k < 8" and st: "(steps env ! k) w = Some (r, w')"
    and ex: "existsSync (BACKUP_DIR env) (disk w)"
    and inst: "\<And>s. existsSync (BACKUP_DIR env) s \<Longrightarrow> existsSync (BACKUP_DIR env) (snd (npmInstall env s))"
  shows "existsSync (BACKUP_DIR env) (disk w')"
proof -
  note [simp del] = resolve.simps
  have B: "BACKUP_DIR env = [backup_name (startedAt env)]" by (simp add: BACKUP_DIR_def)
  have e: "resolve (disk w) (BACKUP_DIR env) \<noteq> None" using ex by (simp add: existsSync_def)
  have via: "existsSync (BACKUP_DIR env) (disk w')"
    if h1: "attempt sid diag body w = Some (r, w')" and h2: "keeps (BACKUP_DIR env) body"
    for sid diag body
  proof -
    obtain r' where "body (disk w) = Some (r', disk w')" using attempt_disk [OF h1] by blast
    then show ?thesis using keepsD [OF h2 _ e] by (simp add: existsSync_def)
  qed
  have kd: "keeps (BACKUP_DIR env) (downloadUpdate_body env)"
    unfolding B by (rule preserves_keeps [OF preserves_downloadUpdate_body [OF backup_name_not_temp]])
  have kc: "keeps (BACKUP_DIR env) (cleanOldFiles_body env)"
    unfolding B by (rule preserves_keeps [OF preserves_cleanOldFiles_body_backup])
  have ka: "keeps (BACKUP_DIR env) (applyUpdate_body env)"
    unfolding B by (rule keeps_applyUpdate_body [OF backup_name_not_temp])
  consider "k = 0" | "k = 1" | "k = 2" | "k = 3" | "k = 4" | "k = 5" | "k = 6" | "k = 7"
    using k by arith
  then show ?thesis
  proof cases
    case 1
    then show ?thesis using st ex
      by (auto simp: steps_def checkRequirements_def say_def split: if_splits)
  next
    case 2
    then show ?thesis using st ex by (auto simp: steps_def confirmUpdate_def say_def)
  next
    case 3
    then show ?thesis using st via [OF _ keeps_createBackup_body]
      by (simp add: steps_def createBackup_def)
  next
    case 4
    then show ?thesis
      using st via [OF _ kd] by (simp add: steps_def downloadUpdate_def)
  next
    case 5
    then show ?thesis
      using st via [OF _ kc] by (simp add: steps_def cleanOldFiles_def)
  next
    case 6
    then show ?thesis
      using st via [OF _ ka] by (simp add: steps_def applyUpdate_def)
  next
    case 7
    then show ?thesis using st via [OF _ keeps_restoreBackup_body]
      by (simp add: steps_def restoreBackup_def)
  next
    case 8
    then have "attempt InstallDependencies [] (\<lambda>s. Some (npmInstall env s)) w = Some (r, w')"
      using st by (simp add: steps_def installDependencies_def)
    then have "disk w' = snd (npmInstall env (disk w))"
      by (cases rule: attempt_cases) auto
    then show ?thesis using inst [OF ex] by simp
  qed
qed

lemma runSteps_snapshot:
  assumes inst: "\<And>s. existsSync (BACKUP_DIR env) s \<Longrightarrow> existsSync (BACKUP_DIR env) (snd (npmInstall env s))"
  shows "3 \<le> k \<Longrightarrow> k \<le> 8 \<Longrightarrow> runSteps (take k (steps env)) 0 t w = Some (Done, wk) \<Longrightarrow>
    existsSync (BACKUP_DIR env) (disk wk)"
proof (induction k arbitrary: wk)
  case 0
  then show ?case by simp
next
  case (Suc k)
  have kl: "k < length (steps env)" using Suc.prems(2) by (simp add: length_steps)
  from Suc.prems(3) obtain w1 w2 where
    a: "runSteps (take k (steps env)) 0 t w = Some (Done, w1)" and
    b: "(steps env ! k) w1 = Some (Done, w2)" and
    c: "wk = say [Progress (Suc k) t] w2"
    unfolding runSteps_take_Suc [OF kl]
    by (auto split: option.splits prod.splits outcome.splits)
  have "existsSync (BACKUP_DIR env) (disk w2)"
  proof (cases "k = 2")
    case True
    then show ?thesis using b createBackup_makes_snapshot by (simp add: steps_def)
  next
    case False
    then have "3 \<le> k" "k < 8" using Suc.prems(1,2) by simp_all
    then show ?thesis using snapshot_kept [OF _ b _ inst] Suc.IH [OF _ _ a] by simp
  qed
  then show ?case using c by (simp add: say_def)
qed

lemma snapshot_left_when_a_step_fails:
  assumes inst: "\<And>s. existsSync (BACKUP_DIR env) s \<Longrightarrow> existsSync (BACKUP_DIR env) (snd (npmInstall env s))"
    and k: "3 \<le> k" "k < 8"
    and run: "runSteps (take k (steps env)) 0 9 w = Some (Done, wk)"
    and st: "(steps env ! k) wk = Some (r, wz)" and r: "r \<noteq> Done"
    and sg: "\<forall>j. signalAt env = Some j \<longrightarrow> k < j"
  shows "\<exists>w'. main env w = Some (1, w') \<and> existsSync (BACKUP_DIR env) (disk w')
    \<and> BackupAvailable (BACKUP_DIR env) \<in> set (console w')"
proof -
  have e: "existsSync (BACKUP_DIR env) (disk wk)"
    using runSteps_snapshot [OF inst k(1) _ run] k(2) by simp
  have z: "existsSync (BACKUP_DIR env) (disk wz)"
    using snapshot_kept [OF k(2) st e inst] .
  have k9: "k < 9" using k(2) by simp
  have "r \<noteq> Exited c" for c
  proof -
    consider "k = 3" | "k = 4" | "k = 5" | "k = 6" | "k = 7"
      using k by arith
    then show ?thesis
      using st
      by cases
        (auto simp: steps_def downloadUpdate_def cleanOldFiles_def applyUpdate_def
           restoreBackup_def installDependencies_def dest: attempt_not_exited)
  qed
  then obtain err where "r = Raise err"
    using r by (cases r) auto
  then show ?thesis
    using main_abort [OF k9 sg run st r] z by (simp add: say_def)
qed

text \<open>
  Claim C8 (the snapshot is left in place on every failed run), at a failing
  input. The lemmas above give the parts of the claim that hold: only
  \<open>cleanup\<close> removes the snapshot, a run that fails in one of the steps after
  the backup ends with the snapshot in place, and \<open>cleanup\<close> never throws.
  In the run below all nine steps succeed, so \<open>cleanup\<close> removes the
  snapshot; then the commits API answers 403 inside the same \<open>try\<close> block.
  The run exits with code 1 and prints that the backup is available at the
  snapshot location, and the snapshot directory is no longer there.
\<close>

theorem snapshot_gone_after_metadata_failure:
  "main env_rate_limited installed \<noteq> None
   \<and> fst (the (main env_rate_limited installed)) = 1
   \<and> BackupAvailable (BACKUP_DIR env_rate_limited)
        \<in> set (console (snd (the (main env_rate_limited installed))))
   \<and> BackupRemoved \<in> set (console (snd (the (main env_rate_limited installed))))
   \<and> resolve (disk (snd (the (main env_rate_limited installed)))) (BACKUP_DIR env_rate_limited) = None"
  by code_simp

section \<open>Replacing the application tree\<close>

text \<open>
  \<open>applyUpdate\<close> copies the fetched tree over what \<open>cleanOldFiles\<close> left,
  and \<open>restoreBackup\<close> copies the snapshot over the result. A copy onto a
  destination that is already there succeeds when the source fits it.
\<close>

lemma resolve_parent:
  "resolve s (p @ [f]) = Some n \<Longrightarrow> \<exists>ds. resolve s p = Some (Dir ds) \<and> map_of ds f = Some n"
  by (auto simp: resolve_snoc split: option.splits node.splits)

lemma passable_resolved: "resolve s p = Some n \<Longrightarrow> passable s (p @ q) = passable n q"
proof (induction p arbitrary: s)
  case Nil
  then show ?case by simp
next
  case (Cons x p)
  then show ?case by (cases s) (auto split: option.splits)
qed

lemma passable_entry: "resolve s p = Some (Dir ds) \<Longrightarrow> passable s (p @ [f])"
  by (simp add: passable_resolved split: option.splits)

lemma writeFile_ok:
  "resolve s p = Some (Dir ds) \<Longrightarrow> map_of ds f = None \<or> (\<exists>d. map_of ds f = Some (File d)) \<Longrightarrow>
   \<exists>s'. writeFile (p @ [f]) c s = Inr s'"
proof (induction p arbitrary: s)
  case Nil
  then show ?case by auto
next
  case (Cons x p)
  from Cons.prems(1) obtain es ch where s: "s = Dir es" and ch: "map_of es x = Some ch"
    and r: "resolve ch p = Some (Dir ds)"
    by (cases s) (auto split: option.splits)
  obtain ch' where "writeFile (p @ [f]) c ch = Inr ch'"
    using Cons.IH [OF r Cons.prems(2)] by blast
  then show ?case using s ch by simp
qed

lemma copy_dir_exists:
  assumes "copy_run (CopyDir src dst) s = Some (None, s')"
  shows "resolve s' dst \<noteq> None"
proof (cases "if existsSync dst s then Inr s else mkdir_recursive dst s")
  case (Inl e)
  then show ?thesis using assms by (simp add: copy_dir_eq)
next
  case (Inr s1)
  have a: "resolve s1 dst \<noteq> None"
  proof (cases "existsSync dst s")
    case True
    then show ?thesis using Inr by (simp add: existsSync_def)
  next
    case False
    then show ?thesis using Inr mkdir_result [of dst s s1] by auto
  qed
  show ?thesis
  proof (cases "readdir src s1")
    case (Inl e)
    then show ?thesis using assms Inr by (simp add: copy_dir_eq)
  next
    case names: (Inr names)
    then have "copy_run (CopyEntries names src dst) s1 = Some (None, s')"
      using assms Inr by (simp add: copy_dir_eq)
    then show ?thesis using copy_exists_aux [of _ s1 "(None, s')" dst] a by simp
  qed
qed

lemma copy_entries_fits:
  assumes ih: "\<And>f c s src dst. (f, c) \<in> set es \<Longrightarrow> isDirectory c \<Longrightarrow>
        resolve s src = Some c \<Longrightarrow> apart dst src \<Longrightarrow> passable s dst \<Longrightarrow>
        fits c (resolve s dst) \<Longrightarrow> \<exists>s'. copy_run (CopyDir src dst) s = Some (None, s')"
    and ap: "apart dst src"
  shows "distinct (map fst todo) \<Longrightarrow> set todo \<subseteq> set es \<Longrightarrow>
     (\<And>f c. (f, c) \<in> set todo \<Longrightarrow>
        resolve s (src @ [f]) = Some c \<and> fits c (resolve s (dst @ [f]))) \<Longrightarrow>
     resolve s dst = Some (Dir ds) \<Longrightarrow>
     \<exists>s'. copy_run (CopyEntries (map fst todo) src dst) s = Some (None, s')"
proof (induction todo arbitrary: s ds)
  case Nil
  then show ?case by (simp add: copy_nil_eq)
next
  case (Cons e rest)
  obtain f c where e: "e = (f, c)" by (cases e)
  have mem: "(f, c) \<in> set es" using Cons.prems(2) e by simp
  have rs: "resolve s (src @ [f]) = Some c" and ft: "fits c (resolve s (dst @ [f]))"
    using Cons.prems(3) [of f c] e by simp_all
  have st: "stat (src @ [f]) s = Inr c"
    using rs by (simp add: stat_def)
  have fresh: "g \<noteq> f" if "(g, c') \<in> set rest" for g c'
    using Cons.prems(1) e that by force
  have step: "\<exists>s'. copy_run (CopyEntries (map fst rest) src dst) s1 = Some (None, s')"
    if frame: "\<And>q. apart (dst @ [f]) q \<Longrightarrow> resolve s1 q = resolve s q"
      and there: "resolve s1 (dst @ [f]) \<noteq> None" for s1
  proof -
    obtain ds1 where d1: "resolve s1 dst = Some (Dir ds1)"
      using there resolve_parent by (cases "resolve s1 (dst @ [f])") blast+
    have keep: "resolve s1 (src @ [g]) = Some c' \<and> fits c' (resolve s1 (dst @ [g]))"
      if m: "(g, c') \<in> set rest" for g c'
    proof -
      have "apart (dst @ [f]) (src @ [g])" using ap by (rule apart_entries)
      then have a: "resolve s1 (src @ [g]) = resolve s (src @ [g])" by (rule frame)
      have "apart (dst @ [f]) (dst @ [g])" using fresh [OF m] by (simp add: apart_siblings)
      then have b: "resolve s1 (dst @ [g]) = resolve s (dst @ [g])" by (rule frame)
      show ?thesis using a b Cons.prems(3) [of g c'] m by simp
    qed
    show ?thesis
      using Cons.IH [of s1 ds1] Cons.prems(1,2) keep d1 by simp
  qed
  show ?case
  proof (cases c)
    case (Dir sub)
    have pd: "passable s (dst @ [f])"
      using passable_entry [OF Cons.prems(4)] .
    obtain s1 where c1: "copy_run (CopyDir (src @ [f]) (dst @ [f])) s = Some (None, s1)"
      using ih [OF mem _ rs _ pd ft] Dir ap by (auto simp: apart_entries)
    have frame: "resolve s1 q = resolve s q" if "apart (dst @ [f]) q" for q
      using copy_frame [OF c1] that by simp
    have there: "resolve s1 (dst @ [f]) \<noteq> None"
      using copy_dir_exists [OF c1] .
    obtain s' where "copy_run (CopyEntries (map fst rest) src dst) s1 = Some (None, s')"
      using step [OF frame there] by blast
    then show ?thesis
      using st Dir c1 e by (simp add: copy_cons_eq)
  next
    case (File content)
    have "resolve s (dst @ [f]) = map_of ds f"
      using Cons.prems(4) by (simp add: resolve_snoc)
    then have "map_of ds f = None \<or> (\<exists>d. map_of ds f = Some (File d))"
      using ft File by (cases "map_of ds f") (auto elim: fits.elims)
    then obtain s1 where w: "writeFile (dst @ [f]) content s = Inr s1"
      using writeFile_ok [OF Cons.prems(4)] by blast
    then have c1: "copyFile (src @ [f]) (dst @ [f]) s = Inr s1"
      using rs File by (simp add: copyFile_def)
    have frame: "resolve s1 q = resolve s q" if "apart (dst @ [f]) q" for q
      using copyFile_frame [OF c1 that] .
    have there: "resolve s1 (dst @ [f]) \<noteq> None"
      using writeFile_result [OF w] by simp
    obtain s' where "copy_run (CopyEntries (map fst rest) src dst) s1 = Some (None, s')"
      using step [OF frame there] by blast
    then show ?thesis
      using st File c1 e by (simp add: copy_cons_eq)
  qed
qed

lemma copy_fits_aux:
  "isDirectory n \<Longrightarrow> wf_node n \<Longrightarrow> resolve s src = Some n \<Longrightarrow> apart dst src \<Longrightarrow>
   passable s dst \<Longrightarrow> fits n (resolve s dst) \<Longrightarrow>
   \<exists>s'. copy_run (CopyDir src dst) s = Some (None, s')"
proof (induction n arbitrary: s src dst)
  case (File c)
  then show ?case by simp
next
  case (Dir es)
  have dist: "distinct (map fst es)" and wfs: "\<And>f c. (f, c) \<in> set es \<Longrightarrow> wf_node c"
    using Dir.prems(2) by (auto simp: list_all_iff)
  show ?case
  proof (cases "resolve s dst")
    case None
    then show ?thesis
      using copy_fresh_aux [OF Dir.prems(1-5)] by simp
  next
    case (Some d)
    then obtain ds where d: "resolve s dst = Some (Dir ds)"
      using Dir.prems(6) by (cases d) auto
    have ih: "\<exists>s''. copy_run (CopyDir src' dst') s' = Some (None, s'')"
      if "(f, c) \<in> set es" "isDirectory c" "resolve s' src' = Some c" "apart dst' src'"
        "passable s' dst'" "fits c (resolve s' dst')" for f c s' src' dst'
      using Dir.IH [of "(f, c)" c s' src' dst'] that wfs by simp
    have rd: "readdir src s = Inr (map fst es)"
      using Dir.prems(3) by (simp add: readdir_def)
    have each: "resolve s (src @ [f]) = Some c \<and> fits c (resolve s (dst @ [f]))"
      if m: "(f, c) \<in> set es" for f c
    proof -
      have "map_of es f = Some c" using dist m by simp
      then have a: "resolve s (src @ [f]) = Some c"
        using Dir.prems(3) by (simp add: resolve_snoc)
      have "fits c (map_of ds f)"
        using Dir.prems(6) d m by (auto simp: list_all_iff)
      then show ?thesis using a d by (simp add: resolve_snoc)
    qed
    obtain s' where "copy_run (CopyEntries (map fst es) src dst) s = Some (None, s')"
      using copy_entries_fits [of es dst src es s ds] ih Dir.prems(4) dist each d by blast
    then show ?thesis
      using d rd by (simp add: copy_dir_eq existsSync_def)
  qed
qed

lemma snapshot_of_kept: "snapshot_of s = Dir [(''dados'', kept_of s)]"
  by (simp add: snapshot_of_def kept_of_def)

lemma attempt_ok:
  "body (disk w) = Some (None, s) \<Longrightarrow>
   attempt sid diag body w = Some (Done, \<lparr>disk = s, console = console w @ [Begin sid, Succeeded sid]\<rparr>)"
  by (simp add: attempt_def)

lemma resolve_place_self: "isDirectory s \<Longrightarrow> resolve (place x t s) (x # q) = resolve t q"
  by (cases s) (simp_all add: place_def update_conv')

lemma isDirectory_place: "isDirectory s \<Longrightarrow> isDirectory (place x t s)"
  by (cases s) (simp_all add: place_def)

lemma isDirectory_rm: "isDirectory s \<Longrightarrow> isDirectory (rm (x # p) s)"
  by (cases s; cases p) (simp_all split: option.splits)

lemma isDirectory_root: "resolve s (x # p) = Some n \<Longrightarrow> isDirectory s"
  by (cases s) simp_all

lemma removeTree_ok:
  "(case resolve s p of Some (Dir es) \<Rightarrow> True | _ \<Rightarrow> \<not> isWindows env) \<Longrightarrow>
   removeTree env p s = Inr (rm p s)"
  by (auto simp: removeTree_def rmdir_s_q_def rm_recursive_force_def
        split: option.splits node.splits)

lemma resolve_rm_under:
  "resolve s [x] = Some t \<Longrightarrow> resolve (rm (x # y # p) s) [x] = Some (rm (y # p) t)"
  by (cases s) (auto simp: update_conv' split: option.splits)

lemma downloadUpdate_body_ok:
  assumes clone: "gitClone env = Cloned t"
    and readme: "case resolve t [''README.md''] of Some (Dir es) \<Rightarrow> False | _ \<Rightarrow> True"
    and root: "isDirectory s"
    and stale: "case resolve s TEMP_DIR of Some (File c) \<Rightarrow> \<not> isWindows env | _ \<Rightarrow> True"
  shows "\<exists>s'. downloadUpdate_body env s = Some (None, s')
    \<and> resolve s' TEMP_DIR = Some (rm [''README.md''] t)"
proof -
  note [simp del] = resolve.simps rm.simps
  let ?clear = "ifExists TEMP_DIR (io (removeTree env TEMP_DIR))"
  let ?unlink = "ifExists (TEMP_DIR @ [''README.md'']) (io (unlink (TEMP_DIR @ [''README.md''])))"
  obtain s1 where a1: "?clear s = Some (None, s1)" and d1: "isDirectory s1"
  proof (cases "existsSync TEMP_DIR s")
    case False
    then have "?clear s = Some (None, s)" by (simp add: ifExists_def skip_def)
    then show ?thesis using that root by blast
  next
    case True
    then have "case resolve s TEMP_DIR of Some (Dir es) \<Rightarrow> True | _ \<Rightarrow> \<not> isWindows env"
      using stale by (auto simp: existsSync_def split: option.splits node.splits)
    then have "removeTree env TEMP_DIR s = Inr (rm TEMP_DIR s)"
      by (rule removeTree_ok)
    then have "?clear s = Some (None, rm TEMP_DIR s)"
      using True by (simp add: ifExists_def io_def)
    moreover have "isDirectory (rm TEMP_DIR s)"
      using root by (simp add: TEMP_DIR_def isDirectory_rm)
    ultimately show ?thesis using that by blast
  qed
  let ?s2 = "place ''temp_richbess'' t s1"
  have a2: "git_clone env s1 = Some (None, ?s2)"
    using clone by (simp add: git_clone_def)
  have t2: "resolve ?s2 (''temp_richbess'' # q) = resolve t q" for q
    using resolve_place_self [OF d1] .
  obtain s3 where a3: "?unlink ?s2 = Some (None, s3)"
    and t3: "resolve s3 TEMP_DIR = Some (rm [''README.md''] t)"
  proof (cases "resolve t [''README.md'']")
    case None
    then have "\<not> existsSync (TEMP_DIR @ [''README.md'']) ?s2"
      using t2 [of "[''README.md'']"] by (simp add: existsSync_def TEMP_DIR_def)
    then have "?unlink ?s2 = Some (None, ?s2)" by (simp add: ifExists_def skip_def)
    moreover have "resolve ?s2 TEMP_DIR = Some (rm [''README.md''] t)"
      using t2 [of "[]"] rm_absent [OF None] by (simp add: TEMP_DIR_def resolve.simps)
    ultimately show ?thesis using that by blast
  next
    case (Some n)
    then obtain c where n: "n = File c" using readme by (cases n) auto
    have r: "resolve ?s2 (TEMP_DIR @ [''README.md'']) = Some (File c)"
      using t2 [of "[''README.md'']"] Some n by (simp add: TEMP_DIR_def)
    then have "?unlink ?s2 = Some (None, rm (TEMP_DIR @ [''README.md'']) ?s2)"
      by (simp add: ifExists_def existsSync_def io_def unlink_def)
    moreover have "resolve (rm (TEMP_DIR @ [''README.md'']) ?s2) TEMP_DIR
        = Some (rm [''README.md''] t)"
      using resolve_rm_under [of ?s2 "''temp_richbess''" t "''README.md''" "[]"] t2 [of "[]"]
      by (simp add: TEMP_DIR_def resolve.simps)
    ultimately show ?thesis using that by blast
  qed
  have "downloadUpdate_body env s = Some (None, s3)"
    using a1 a2 a3
    by (simp add: downloadUpdate_body_def inOrder_Cons inOrder_Nil andThen_def skip_def)
  then show ?thesis using t3 by blast
qed

lemma wf_entry: "wf_node (Dir ts) \<Longrightarrow> map_of ts f = Some x \<Longrightarrow> wf_node x"
  using wf_resolve [of "Dir ts" "[f]" x] by simp

lemma apply_entry_ok:
  assumes wfx: "wf_node x" and src: "resolve s (TEMP_DIR @ [f]) = Some x"
    and ne: "f \<noteq> ''temp_richbess''" and ft: "fits x (resolve s [f])"
  shows "\<exists>s1. (if isDirectory x then copyDirectoryAsync (TEMP_DIR @ [f]) [f]
               else io (copyFile (TEMP_DIR @ [f]) [f])) s = Some (None, s1)"
proof -
  have root: "isDirectory s"
    using src by (simp add: TEMP_DIR_def isDirectory_root del: resolve.simps)
  then obtain es where es: "s = Dir es" by (cases s) auto
  have top: "resolve s [] = Some (Dir es)" using es by simp
  show ?thesis
  proof (cases x)
    case (Dir sub)
    have ap: "apart [f] (TEMP_DIR @ [f])" using ne by (simp add: TEMP_DIR_def)
    have pass: "passable s [f]" using passable_entry [OF top, of f] by simp
    obtain s1 where "copy_run (CopyDir (TEMP_DIR @ [f]) [f]) s = Some (None, s1)"
      using copy_fits_aux [OF _ wfx src ap pass ft] Dir by auto
    then show ?thesis using Dir by (simp add: copyDirectoryAsync_def)
  next
    case (File c)
    have "resolve s [f] = map_of es f" using es by (simp split: option.splits)
    then have "map_of es f = None \<or> (\<exists>d. map_of es f = Some (File d))"
      using ft File by (cases "map_of es f") (auto elim: fits.elims)
    then obtain s1 where "writeFile ([] @ [f]) c s = Inr s1"
      using writeFile_ok [OF top] by blast
    then have "copyFile (TEMP_DIR @ [f]) [f] s = Inr s1"
      using src File by (simp add: copyFile_def del: resolve.simps)
    then show ?thesis using File by (simp add: io_def)
  qed
qed

lemma apply_entry_frame:
  assumes "(if isDirectory x then copyDirectoryAsync (TEMP_DIR @ [f]) [f]
            else io (copyFile (TEMP_DIR @ [f]) [f])) s = Some (r, s1)"
    and "y \<noteq> f"
  shows "resolve s1 (y # q) = resolve s (y # q)"
  using assms copyDirectoryAsync_frame [of "TEMP_DIR @ [f]" "[f]" s r s1 "y # q"]
    copyFile_frame [of "TEMP_DIR @ [f]" "[f]" s s1 "y # q"]
  by (auto simp: io_def split: if_splits sum.splits simp del: resolve.simps)

lemma applyEntries_Cons:
  "stat (TEMP_DIR @ [f]) s = Inr x \<Longrightarrow>
   applyEntries (f # files) s =
     andThen (if isDirectory x then copyDirectoryAsync (TEMP_DIR @ [f]) [f]
              else io (copyFile (TEMP_DIR @ [f]) [f])) (applyEntries files) s"
  by simp

lemma applyEntries_ok:
  assumes wf: "wf_node (Dir ts)"
  shows "resolve s TEMP_DIR = Some (Dir ts) \<Longrightarrow> distinct files \<Longrightarrow>
     set files \<subseteq> fst ` set ts \<Longrightarrow> ''temp_richbess'' \<notin> set files \<Longrightarrow>
     (\<And>f x. f \<in> set files \<Longrightarrow> map_of ts f = Some x \<Longrightarrow> fits x (resolve s [f])) \<Longrightarrow>
     \<exists>s'. applyEntries files s = Some (None, s')"
proof (induction files arbitrary: s)
  case Nil
  then show ?case by (simp add: skip_def)
next
  case (Cons f files)
  note [simp del] = resolve.simps applyEntries.simps
  have "f \<in> fst ` set ts" using Cons.prems(3) by simp
  then obtain x where x: "map_of ts f = Some x"
    by (cases "map_of ts f") (auto simp: map_of_eq_None_iff)
  have wfx: "wf_node x" using wf x by (rule wf_entry)
  have src: "resolve s (TEMP_DIR @ [f]) = Some x"
    using Cons.prems(1) x by (simp add: resolve_snoc)
  have st: "stat (TEMP_DIR @ [f]) s = Inr x"
    using src by (simp add: stat_def)
  have ne: "f \<noteq> ''temp_richbess''" using Cons.prems(4) by auto
  have ft: "fits x (resolve s [f])" using Cons.prems(5) [of f x] x by simp
  let ?a = "if isDirectory x then copyDirectoryAsync (TEMP_DIR @ [f]) [f]
            else io (copyFile (TEMP_DIR @ [f]) [f])"
  obtain s1 where a: "?a s = Some (None, s1)"
    using apply_entry_ok [OF wfx src ne ft] by blast
  have fr: "resolve s1 (y # q) = resolve s (y # q)" if "y \<noteq> f" for y q
    using apply_entry_frame [OF a that] .
  have t1: "resolve s1 TEMP_DIR = Some (Dir ts)"
    using fr [of "''temp_richbess''" "[]"] ne Cons.prems(1) by (simp add: TEMP_DIR_def)
  have rest: "fits x' (resolve s1 [g])" if "g \<in> set files" "map_of ts g = Some x'" for g x'
  proof -
    have "g \<noteq> f" using Cons.prems(2) that(1) by auto
    then show ?thesis using fr [of g "[]"] Cons.prems(5) [of g x'] that by simp
  qed
  obtain s' where "applyEntries files s1 = Some (None, s')"
    using Cons.IH [OF t1 _ _ _ rest] Cons.prems(2,3,4) by auto
  then show ?case
    using applyEntries_Cons [OF st] a by (simp add: andThen_def)
qed

lemma applyEntries_dados:
  assumes wf: "wf_node (Dir ts)" and d: "map_of ts ''dados'' = Some (Dir dd)"
  shows "applyEntries files s = Some (None, s') \<Longrightarrow> resolve s TEMP_DIR = Some (Dir ts) \<Longrightarrow>
     distinct files \<Longrightarrow> set files \<subseteq> fst ` set ts \<Longrightarrow> ''temp_richbess'' \<notin> set files \<Longrightarrow>
     resolve s [''dados''] = Some (Dir []) \<Longrightarrow> ''dados'' \<in> set files \<Longrightarrow>
     resolve s' [''dados''] = Some (Dir dd)"
proof (induction files arbitrary: s)
  case Nil
  then show ?case by simp
next
  case (Cons f files)
  note [simp del] = resolve.simps applyEntries.simps
  have "f \<in> fst ` set ts" using Cons.prems(4) by simp
  then obtain x where x: "map_of ts f = Some x"
    by (cases "map_of ts f") (auto simp: map_of_eq_None_iff)
  have src: "resolve s (TEMP_DIR @ [f]) = Some x"
    using Cons.prems(2) x by (simp add: resolve_snoc)
  have st: "stat (TEMP_DIR @ [f]) s = Inr x"
    using src by (simp add: stat_def)
  have ne: "f \<noteq> ''temp_richbess''" using Cons.prems(5) by auto
  let ?a = "if isDirectory x then copyDirectoryAsync (TEMP_DIR @ [f]) [f]
            else io (copyFile (TEMP_DIR @ [f]) [f])"
  obtain s1 where a: "?a s = Some (None, s1)" and b: "applyEntries files s1 = Some (None, s')"
    using Cons.prems(1) applyEntries_Cons [OF st]
    by (auto simp: andThen_def split: option.splits prod.splits)
  have fr: "resolve s1 (y # q) = resolve s (y # q)" if "y \<noteq> f" for y q
    using apply_entry_frame [OF a that] .
  have t1: "resolve s1 TEMP_DIR = Some (Dir ts)"
    using fr [of "''temp_richbess''" "[]"] ne Cons.prems(2) by (simp add: TEMP_DIR_def)
  show ?case
  proof (cases "f = ''dados''")
    case True
    then have xd: "x = Dir dd" using x d by simp
    have wfd: "wf_node (Dir dd)" using wf d by (rule wf_entry)
    have root: "isDirectory s"
      using Cons.prems(6) by (rule isDirectory_root)
    then obtain es where es: "s = Dir es" by (cases s) auto
    have pass: "passable s [''dados'']"
      using es by (simp split: option.splits)
    have "copyDirectoryAsync (TEMP_DIR @ [''dados'']) [''dados''] s
        = Some (None, put [''dados''] (Dir dd) s)"
      using copy_fresh [of s "TEMP_DIR @ [''dados'']" dd "[''dados'']"] src True xd wfd pass
        Cons.prems(6)
      by (simp add: TEMP_DIR_def)
    then have "s1 = put [''dados''] (Dir dd) s"
      using a True xd by simp
    then have "resolve s1 [''dados''] = Some (Dir dd)"
      using resolve_put_self [OF pass] by simp
    moreover have "''dados'' \<notin> set files" using Cons.prems(3) True by simp
    ultimately show ?thesis
      using applyEntries_frame [OF b, of "''dados''" "[]"] by simp
  next
    case False
    then have "resolve s1 [''dados''] = Some (Dir [])"
      using fr [of "''dados''" "[]"] Cons.prems(6) by simp
    moreover have "''dados'' \<in> set files" using Cons.prems(7) False by simp
    ultimately show ?thesis
      using Cons.IH [OF b t1] Cons.prems(3,4,5) by simp
  qed
qed

lemma applyUpdate_body_ok:
  assumes wf: "wf_node (Dir ts)" and temp: "resolve s TEMP_DIR = Some (Dir ts)"
    and nt: "''temp_richbess'' \<notin> fst ` set ts"
    and ft: "\<And>f x. map_of ts f = Some x \<Longrightarrow> fits x (resolve s [f])"
    and empty: "resolve s [''dados''] = Some (Dir [])"
  shows "\<exists>s'. applyUpdate_body env s = Some (None, s')
    \<and> (\<forall>y q. y \<notin> fst ` set ts \<longrightarrow> y \<noteq> ''temp_richbess'' \<longrightarrow>
          resolve s' (y # q) = resolve s (y # q))
    \<and> resolve s' [''dados'']
        = (case map_of ts ''dados'' of None \<Rightarrow> Some (Dir []) | Some x \<Rightarrow> Some x)"
proof -
  note [simp del] = resolve.simps rm.simps
  let ?files = "map fst ts"
  have dist: "distinct ?files" using wf by simp
  have rd: "readdir TEMP_DIR s = Inr ?files"
    using temp by (simp add: readdir_def)
  have nt': "''temp_richbess'' \<notin> set ?files" using nt by simp
  obtain s1 where a: "applyEntries ?files s = Some (None, s1)"
    using applyEntries_ok [OF wf temp dist _ nt' ft] by auto
  have fr1: "resolve s1 (y # q) = resolve s (y # q)" if "y \<notin> fst ` set ts" for y q
    using applyEntries_frame [OF a, of y q] that by simp
  have t1: "resolve s1 TEMP_DIR = Some (Dir ts)"
    using fr1 [of "''temp_richbess''" "[]"] nt temp by (simp add: TEMP_DIR_def)
  then have "removeTree env TEMP_DIR s1 = Inr (rm TEMP_DIR s1)"
    by (intro removeTree_ok) simp
  then have b: "ifExists TEMP_DIR (io (removeTree env TEMP_DIR)) s1 = Some (None, rm TEMP_DIR s1)"
    using t1 by (simp add: ifExists_def existsSync_def io_def)
  have body: "applyUpdate_body env s = Some (None, rm TEMP_DIR s1)"
    using rd a b by (simp add: applyUpdate_body_def andThen_def)
  have fr2: "resolve (rm TEMP_DIR s1) (y # q) = resolve s1 (y # q)" if "y \<noteq> ''temp_richbess''" for y q
    using resolve_rm_other [of "''temp_richbess''" y "[]" s1 q] that by (simp add: TEMP_DIR_def)
  have dados1: "resolve s1 [''dados'']
        = (case map_of ts ''dados'' of None \<Rightarrow> Some (Dir []) | Some x \<Rightarrow> Some x)"
  proof (cases "map_of ts ''dados''")
    case None
    then have "''dados'' \<notin> fst ` set ts" by (simp add: map_of_eq_None_iff)
    then show ?thesis using fr1 [of "''dados''" "[]"] empty None by simp
  next
    case (Some x)
    have "fits x (Some (Dir []))" using ft [OF Some] empty by simp
    then obtain dd where x: "x = Dir dd" by (cases x) auto
    have "''dados'' \<in> set ?files"
      using Some by (metis map_of_SomeD image_eqI fst_conv list.set_map)
    then show ?thesis
      using applyEntries_dados [OF wf _ a temp dist _ nt' empty] Some x by simp
  qed
  show ?thesis
    using body fr1 fr2 dados1 by (auto simp: fr2)
qed

lemma mkdir_fits:
  assumes par: "resolve s p = Some (Dir ds)" and ft: "fits (Dir es) (map_of ds x)"
  shows "\<exists>s1 d. mkdir_recursive (p @ [x]) s = Inr s1
     \<and> resolve s1 (p @ [x]) = Some (Dir d) \<and> fits (Dir es) (Some (Dir d))
     \<and> (\<forall>q. apart (p @ [x]) q \<longrightarrow> resolve s1 q = resolve s q)"
proof (cases "map_of ds x")
  case None
  then have r: "resolve s (p @ [x]) = None"
    using par by (simp add: resolve_snoc)
  have pass: "passable s (p @ [x])"
    using par by (rule passable_entry)
  have m: "mkdir_recursive (p @ [x]) s = Inr (put (p @ [x]) (Dir []) s)"
    using mkdir_fresh [OF pass r] .
  have "resolve (put (p @ [x]) (Dir []) s) (p @ [x]) = Some (Dir [])"
    using resolve_put_self [OF pass] .
  moreover have "fits (Dir es) (Some (Dir []))"
    by (simp add: list_all_iff)
  ultimately show ?thesis
    using m resolve_put_apart by blast
next
  case (Some n)
  then obtain d where n: "n = Dir d" using ft by (cases n) auto
  then have r: "resolve s (p @ [x]) = Some (Dir d)"
    using par Some by (simp add: resolve_snoc)
  then have "mkdir_recursive (p @ [x]) s = Inr s"
    by (rule mkdir_existing)
  then show ?thesis
    using r ft Some n by auto
qed

lemma restoreBackup_body_ok:
  assumes bk: "BACKUP_DIR env = [bk]" and ne: "bk \<noteq> ''dados''"
    and snap: "\<And>q. resolve s (bk # ''dados'' # q) = resolve (kept_of live) q"
    and ready: "backup_ready live"
    and dados: "resolve s [''dados''] = Some (Dir dd)"
    and ft: "fits (kept_of live) (Some (Dir dd))"
  shows "\<exists>s'. restoreBackup_body env s = Some (None, s')"
proof -
  note [simp del] = resolve.simps
  define DB where "DB = (case resolve live [''dados'', ''database''] of None \<Rightarrow> Dir [] | Some n \<Rightarrow> n)"
  define C where "C = (case resolve live [''dados'', ''src'', ''config.json''] of
                         None \<Rightarrow> [] | Some n \<Rightarrow> [(''config.json'', n)])"
  define MD where "MD = (case resolve live [''dados'', ''midias''] of None \<Rightarrow> Dir [] | Some n \<Rightarrow> n)"
  have K: "kept_of live = Dir [(''database'', DB), (''src'', Dir C), (''midias'', MD)]"
    by (simp add: kept_of_def DB_def C_def MD_def)
  have wf: "wf_node live" using ready by (simp add: backup_ready_def)
  obtain db where db: "DB = Dir db" and wdb: "wf_node DB"
    using ready wf wf_resolve [of live "[''dados'', ''database'']"]
    by (cases "resolve live [''dados'', ''database'']")
      (auto simp: backup_ready_def DB_def split: node.splits)
  obtain md where md: "MD = Dir md" and wmd: "wf_node MD"
    using ready wf wf_resolve [of live "[''dados'', ''midias'']"]
    by (cases "resolve live [''dados'', ''midias'']")
      (auto simp: backup_ready_def MD_def split: node.splits)
  have cfg: "C = [] \<or> (\<exists>c. C = [(''config.json'', File c)])"
    using ready
    by (cases "resolve live [''dados'', ''src'', ''config.json'']")
      (auto simp: backup_ready_def C_def split: node.splits)
  have f0: "fits (Dir db) (map_of dd ''database'')" "fits (Dir C) (map_of dd ''src'')"
    "fits (Dir md) (map_of dd ''midias'')"
    using ft K db md by simp_all
  have sdb: "resolve s [bk, ''dados'', ''database''] = Some DB"
    and smd: "resolve s [bk, ''dados'', ''midias''] = Some MD"
    and scf: "resolve s [bk, ''dados'', ''src'', ''config.json''] = map_of C ''config.json''"
  proof -
    have "resolve (kept_of live) [''database''] = Some DB"
      "resolve (kept_of live) [''midias''] = Some MD"
      "resolve (kept_of live) [''src'', ''config.json''] = map_of C ''config.json''"
      by (simp_all add: K resolve.simps split: option.splits)
    then show "resolve s [bk, ''dados'', ''database''] = Some DB"
      "resolve s [bk, ''dados'', ''midias''] = Some MD"
      "resolve s [bk, ''dados'', ''src'', ''config.json''] = map_of C ''config.json''"
      using snap [of "[''database'']"] snap [of "[''midias'']"]
        snap [of "[''src'', ''config.json'']"]
      by simp_all
  qed
  obtain s1 d1 where m1: "mkdir_recursive [''dados'', ''database''] s = Inr s1"
    and r1: "resolve s1 [''dados'', ''database''] = Some (Dir d1)"
    and g1: "fits (Dir db) (Some (Dir d1))"
    and fr1: "\<And>q. apart [''dados'', ''database''] q \<Longrightarrow> resolve s1 q = resolve s q"
    using mkdir_fits [OF dados f0(1)] by auto
  obtain dd1 where p1: "resolve s1 [''dados''] = Some (Dir dd1)"
    using resolve_parent [of s1 "[''dados'']" "''database''"] r1 by auto
  have "resolve s1 [''dados'', ''src''] = resolve s [''dados'', ''src'']"
    by (rule fr1) simp
  then have "map_of dd1 ''src'' = map_of dd ''src''"
    using p1 dados resolve_snoc [of s1 "[''dados'']" "''src''"]
      resolve_snoc [of s "[''dados'']" "''src''"] by simp
  then have f1: "fits (Dir C) (map_of dd1 ''src'')" using f0(2) by simp
  obtain s2 d2 where m2: "mkdir_recursive [''dados'', ''src''] s1 = Inr s2"
    and r2: "resolve s2 [''dados'', ''src''] = Some (Dir d2)"
    and g2: "fits (Dir C) (Some (Dir d2))"
    and fr2: "\<And>q. apart [''dados'', ''src''] q \<Longrightarrow> resolve s2 q = resolve s1 q"
    using mkdir_fits [OF p1 f1] by auto
  obtain dd2 where p2: "resolve s2 [''dados''] = Some (Dir dd2)"
    using resolve_parent [of s2 "[''dados'']" "''src''"] r2 by auto
  have "resolve s2 [''dados'', ''midias''] = resolve s [''dados'', ''midias'']"
    using fr2 [of "[''dados'', ''midias'']"] fr1 [of "[''dados'', ''midias'']"] by simp
  then have "map_of dd2 ''midias'' = map_of dd ''midias''"
    using p2 dados resolve_snoc [of s2 "[''dados'']" "''midias''"]
      resolve_snoc [of s "[''dados'']" "''midias''"] by simp
  then have f2: "fits (Dir md) (map_of dd2 ''midias'')" using f0(3) by simp
  obtain s3 d3 where m3: "mkdir_recursive [''dados'', ''midias''] s2 = Inr s3"
    and r3: "resolve s3 [''dados'', ''midias''] = Some (Dir d3)"
    and g3: "fits (Dir md) (Some (Dir d3))"
    and fr3: "\<And>q. apart [''dados'', ''midias''] q \<Longrightarrow> resolve s3 q = resolve s2 q"
    using mkdir_fits [OF p2 f2] by auto
  have snap3: "resolve s3 (bk # q) = resolve s (bk # q)" for q
    using fr3 [of "bk # q"] fr2 [of "bk # q"] fr1 [of "bk # q"] ne by simp
  have db3: "resolve s3 [''dados'', ''database''] = Some (Dir d1)"
    using fr3 [of "[''dados'', ''database'']"] fr2 [of "[''dados'', ''database'']"] r1 by simp
  have src3: "resolve s3 [''dados'', ''src''] = Some (Dir d2)"
    using fr3 [of "[''dados'', ''src'']"] r2 by simp
  obtain dd3 where p3: "resolve s3 [''dados''] = Some (Dir dd3)"
    using resolve_parent [of s3 "[''dados'']" "''midias''"] r3 by auto
  let ?c4 = "ifExists (BACKUP_DIR env @ [''dados'', ''database''])
      (copyDirectoryAsync (BACKUP_DIR env @ [''dados'', ''database'']) [''dados'', ''database''])"
  have e4: "resolve s3 [bk, ''dados'', ''database''] = Some DB"
    using snap3 sdb by simp
  have pass4: "passable s3 [''dados'', ''database'']"
    using passable_entry [OF p3, of "''database''"] by simp
  obtain s4 where c4: "copy_run (CopyDir [bk, ''dados'', ''database''] [''dados'', ''database'']) s3
      = Some (None, s4)"
    using copy_fits_aux [of DB s3 "[bk, ''dados'', ''database'']" "[''dados'', ''database'']"]
      db wdb e4 ne pass4 db3 g1 by auto
  have a4: "?c4 s3 = Some (None, s4)"
    using c4 e4 bk by (simp add: ifExists_def existsSync_def copyDirectoryAsync_def)
  have fr4: "resolve s4 q = resolve s3 q" if "apart [''dados'', ''database''] q" for q
    using copy_frame [OF c4] that by simp
  have src4: "resolve s4 [''dados'', ''src''] = Some (Dir d2)"
    using fr4 [of "[''dados'', ''src'']"] src3 by simp
  have snap4: "resolve s4 (bk # q) = resolve s (bk # q)" for q
    using fr4 [of "bk # q"] snap3 ne by simp
  let ?c5 = "ifExists (BACKUP_DIR env @ [''dados'', ''src'', ''config.json''])
      (io (copyFile (BACKUP_DIR env @ [''dados'', ''src'', ''config.json''])
             [''dados'', ''src'', ''config.json'']))"
  obtain s5 where a5: "?c5 s4 = Some (None, s5)"
    and fr5: "\<And>q. apart [''dados'', ''src'', ''config.json''] q \<Longrightarrow> resolve s5 q = resolve s4 q"
  proof (cases "C = []")
    case True
    then have "resolve s4 [bk, ''dados'', ''src'', ''config.json''] = None"
      using snap4 scf by simp
    then have "?c5 s4 = Some (None, s4)"
      using bk by (simp add: ifExists_def existsSync_def skip_def)
    then show ?thesis using that by blast
  next
    case False
    then obtain c where c: "C = [(''config.json'', File c)]" using cfg by auto
    then have e5: "resolve s4 [bk, ''dados'', ''src'', ''config.json''] = Some (File c)"
      using snap4 scf by simp
    have "map_of d2 ''config.json'' = None \<or> (\<exists>d. map_of d2 ''config.json'' = Some (File d))"
      using g2 c by (cases "map_of d2 ''config.json''") (auto elim: fits.elims)
    then obtain s5 where w: "writeFile ([''dados'', ''src''] @ [''config.json'']) c s4 = Inr s5"
      using writeFile_ok [OF src4] by blast
    then have cf: "copyFile [bk, ''dados'', ''src'', ''config.json'']
        [''dados'', ''src'', ''config.json''] s4 = Inr s5"
      using e5 by (simp add: copyFile_def)
    then have "?c5 s4 = Some (None, s5)"
      using e5 bk by (simp add: ifExists_def existsSync_def io_def)
    moreover have "resolve s5 q = resolve s4 q" if "apart [''dados'', ''src'', ''config.json''] q" for q
      using copyFile_frame [OF cf that] .
    ultimately show ?thesis using that by blast
  qed
  let ?c6 = "ifExists (BACKUP_DIR env @ [''dados'', ''midias''])
      (copyDirectoryAsync (BACKUP_DIR env @ [''dados'', ''midias'']) [''dados'', ''midias''])"
  have md5: "resolve s5 [''dados'', ''midias''] = Some (Dir d3)"
    using fr5 [of "[''dados'', ''midias'']"] fr4 [of "[''dados'', ''midias'']"] r3 by simp
  obtain dd5 where p5: "resolve s5 [''dados''] = Some (Dir dd5)"
    using resolve_parent [of s5 "[''dados'']" "''midias''"] md5 by auto
  have e6: "resolve s5 [bk, ''dados'', ''midias''] = Some MD"
    using fr5 [of "[bk, ''dados'', ''midias'']"] snap4 smd ne by simp
  have pass6: "passable s5 [''dados'', ''midias'']"
    using passable_entry [OF p5, of "''midias''"] by simp
  obtain s6 where c6: "copy_run (CopyDir [bk, ''dados'', ''midias''] [''dados'', ''midias'']) s5
      = Some (None, s6)"
    using copy_fits_aux [of MD s5 "[bk, ''dados'', ''midias'']" "[''dados'', ''midias'']"]
      md wmd e6 ne pass6 md5 g3 by auto
  have a6: "?c6 s5 = Some (None, s6)"
    using c6 e6 bk by (simp add: ifExists_def existsSync_def copyDirectoryAsync_def)
  have "restoreBackup_body env s = Some (None, s6)"
    unfolding restoreBackup_body_def inOrder_Cons inOrder_Nil
    using m1 m2 m3 a4 a5 a6
    by (simp add: andThen_def skip_def io_def)
  then show ?thesis by blast
qed

lemma removable_same:
  "resolve s' [fst item] = resolve s [fst item] \<Longrightarrow> removable env s' item = removable env s item"
  by (simp add: removable_def del: resolve.simps)

lemma resolve_above:
  "resolve s (x # y # q) = Some n \<Longrightarrow> \<exists>ds. resolve s [x] = Some (Dir ds)"
  by (cases s) (auto split: option.splits node.splits)

lemma wf_rm_entry:
  assumes "wf_node (Dir ts)"
  shows "wf_node (Dir (AList.delete x ts))"
proof -
  have "distinct (map fst (AList.delete x ts))"
    using assms by (simp add: distinct_delete)
  moreover have "set (AList.delete x ts) \<subseteq> set ts"
    by (auto simp: AList.delete_eq)
  ultimately show ?thesis
    using assms by (auto simp: list_all_iff)
qed

lemma fits_empty: "isDirectory n \<Longrightarrow> fits n (Some (Dir []))"
  by (cases n) (simp_all add: list_all_iff)


text \<open>
  Claim C2 says that the two files come back whatever the fetched tree holds
  at their paths. In the first run below the fetched tree has a directory at
  \<open>dados/database/db.json\<close>: \<open>applyUpdate\<close> makes that directory,
  \<open>restoreBackup\<close> then fails to copy the file over it (\<open>EISDIR\<close>), and
  the path holds the fetched directory instead of the original file. In the
  second the fetched tree has a file named \<open>dados\<close>: \<open>applyUpdate\<close> fails
  to copy it over the emptied directory, \<open>restoreBackup\<close> is never started,
  and the file \<open>db.json\<close> is in the snapshot only.
\<close>

theorem replacement_clash_counterexample:
  \<open>resolve (disk installed) [''dados'', ''database'', ''db.json''] = Some (File ''{"v":1}'')
   \<and> runSteps (take 7 (steps env_clash)) 0 9 installed \<noteq> None
   \<and> fst (the (runSteps (take 7 (steps env_clash)) 0 9 installed)) = Raise EISDIR
   \<and> Failed RestoreBackup EISDIR
        \<in> set (console (snd (the (runSteps (take 7 (steps env_clash)) 0 9 installed))))
   \<and> resolve (disk (snd (the (runSteps (take 7 (steps env_clash)) 0 9 installed))))
        [''dados'', ''database'', ''db.json''] = Some (Dir [(''part1'', File ''x'')])
   \<and> runSteps (take 7 (steps env_dados_file)) 0 9 installed \<noteq> None
   \<and> fst (the (runSteps (take 7 (steps env_dados_file)) 0 9 installed)) = Raise EISDIR
   \<and> Failed ApplyUpdate EISDIR
        \<in> set (console (snd (the (runSteps (take 7 (steps env_dados_file)) 0 9 installed))))
   \<and> RestoreBackup
        \<notin> set (begun (console (snd (the (runSteps (take 7 (steps env_dados_file)) 0 9 installed)))))
   \<and> resolve (disk (snd (the (runSteps (take 7 (steps env_dados_file)) 0 9 installed))))
        [''dados'', ''database'', ''db.json''] = None\<close>
  by code_simp

text \<open>
  Claim C2, as amended. Start from a tree with the files
  \<open>dados/database/db.json\<close> and \<open>dados/src/config.json\<close>, and let the tree
  and the fetched tree be as the update needs them (\<open>update_ready\<close>): in
  particular no entry of the fetched tree meets an entry of the other kind,
  neither in the cleaned live tree nor in the user data. Then
  \<open>createBackup\<close>, \<open>downloadUpdate\<close>, \<open>cleanOldFiles\<close>, \<open>applyUpdate\<close>
  and \<open>restoreBackup\<close> all complete without error. The staging directory
  holds the fetched tree without its \<open>README.md\<close>; after the clean step
  both files are gone from the live tree; after the apply step \<open>dados\<close>
  is the \<open>dados\<close> of the fetched tree (empty when it has none); and
  after the restore step both files are present with their original contents,
  whatever contents the fetched tree held at those paths.
\<close>

theorem end_to_end_preservation:
  assumes db: "resolve (disk w) [''dados'', ''database'', ''db.json''] = Some (File v)"
    and cfg: "resolve (disk w) [''dados'', ''src'', ''config.json''] = Some (File c)"
    and clone: "gitClone env = Cloned t"
    and ready: "update_ready env (disk w) t"
  shows "\<exists>w1 w2 w3 w4 w5.
      createBackup env w = Some (Done, w1)
    \<and> downloadUpdate env w1 = Some (Done, w2)
    \<and> cleanOldFiles env w2 = Some (Done, w3)
    \<and> applyUpdate env w3 = Some (Done, w4)
    \<and> restoreBackup env w4 = Some (Done, w5)
    \<and> resolve (disk w2) TEMP_DIR = Some (rm [''README.md''] t)
    \<and> resolve (disk w3) [''dados'', ''database'', ''db.json''] = None
    \<and> resolve (disk w3) [''dados'', ''src'', ''config.json''] = None
    \<and> resolve (disk w4) [''dados'']
        = Some (case resolve t [''dados''] of None \<Rightarrow> Dir [] | Some d \<Rightarrow> d)
    \<and> resolve (disk w5) [''dados'', ''database'', ''db.json''] = Some (File v)
    \<and> resolve (disk w5) [''dados'', ''src'', ''config.json''] = Some (File c)"
proof -
  note [simp del] = resolve.simps
  define bk where "bk = backup_name (startedAt env)"
  define s where "s = disk w"
  have B: "BACKUP_DIR env = [bk]" by (simp add: BACKUP_DIR_def bk_def)
  have x: "''dados'' \<noteq> bk" "bk \<noteq> ''temp_richbess''"
    by (simp_all add: bk_def backup_name_def)
  have bk_item: "fst item \<noteq> bk" if "item \<in> set itemsToDelete" for item
    using backup_name_not_item [OF that] by (simp add: bk_def)
  have temp_item: "fst item \<noteq> ''temp_richbess''" if "item \<in> set itemsToDelete" for item
    using that by (auto simp: itemsToDelete_def)
  have br: "backup_ready s" and fresh: "resolve s (BACKUP_DIR env) = None"
    and stale: "case resolve s TEMP_DIR of Some (File c) \<Rightarrow> \<not> isWindows env | _ \<Rightarrow> True"
    and rem: "list_all (removable env s) itemsToDelete"
    and st: "stageable env t" and fl: "fits_live t s"
    and fk: "fits (kept_of s) (resolve t [''dados''])"
    using ready by (simp_all add: update_ready_def s_def)
  have root: "isDirectory s" and wf: "wf_node s"
    using br by (simp_all add: backup_ready_def)
  obtain ts where t: "t = Dir ts" and wft: "wf_node (Dir ts)"
    using st by (cases t) (auto simp: stageable_def)
  have readme: "case resolve t [''README.md''] of Some (Dir es) \<Rightarrow> False | _ \<Rightarrow> True"
    and no_temp: "resolve t TEMP_DIR = None" and no_bk: "resolve t [bk] = None"
    using st B by (simp_all add: stageable_def)
  define s1 where "s1 = place bk (snapshot_of s) s"
  have b1: "createBackup_body env s = Some (None, s1)"
    using createBackup_body_fresh [OF br fresh] by (simp add: s1_def bk_def)
  have root1: "isDirectory s1"
    using root by (simp add: s1_def isDirectory_place)
  have snap1: "resolve s1 (bk # q) = resolve (snapshot_of s) q" for q
    using resolve_place_self [OF root] by (simp add: s1_def)
  have live1: "resolve s1 (y # q) = resolve s (y # q)" if "y \<noteq> bk" for y q
    using resolve_place_other [of bk y] that by (simp add: s1_def)
  have saved: "resolve s1 ([bk] @ [''dados'', ''database'', ''db.json'']) = Some (File v)
      \<and> resolve s1 ([bk] @ [''dados'', ''src'', ''config.json'']) = Some (File c)"
    using transfer_success [of "[bk]" "[]" s s1 v c] b1 db cfg x
    by (simp add: createBackup_body_def B s_def)
  have stale1: "case resolve s1 TEMP_DIR of Some (File c) \<Rightarrow> \<not> isWindows env | _ \<Rightarrow> True"
    using stale live1 [of "''temp_richbess''" "[]"] x by (simp add: TEMP_DIR_def)
  obtain s2 where b2: "downloadUpdate_body env s1 = Some (None, s2)"
    and t2: "resolve s2 TEMP_DIR = Some (rm [''README.md''] t)"
    using downloadUpdate_body_ok [OF clone readme root1 stale1] by blast
  have k2: "resolve s2 (y # q) = resolve s1 (y # q)" if "y \<noteq> ''temp_richbess''" for y q
    using preservesD [OF preserves_downloadUpdate_body b2, of y q] that by simp
  have same2: "resolve s2 [fst item] = resolve s [fst item]" if "item \<in> set itemsToDelete" for item
    using k2 [of "fst item" "[]"] live1 [of "fst item" "[]"] bk_item [OF that] temp_item [OF that]
    by simp
  have rem2: "list_all (removable env s2) itemsToDelete"
    using rem removable_same [OF same2] by (simp add: list_all_iff)
  obtain ds where dados: "resolve s [''dados''] = Some (Dir ds)"
    using resolve_above [OF db [unfolded s_def [symmetric]]] by blast
  have "wf_node (Dir ds)" using wf_resolve [OF wf dados] .
  then have dist: "distinct (map fst ds)" by simp
  have dados2: "resolve s2 [''dados''] = Some (Dir ds)"
    using k2 [of "''dados''" "[]"] live1 [of "''dados''" "[]"] dados x by simp
  obtain s3 where b3: "cleanOldFiles_body env s2 = Some (None, s3)"
    and gone3: "\<And>item. item \<in> set itemsToDelete \<Longrightarrow> resolve s3 [fst item] = None"
    and empty3: "resolve s3 [''dados''] = Some (Dir [])"
    using cleanOldFiles_body_result [OF rem2] dados2 dist by blast
  have k3: "resolve s3 (y # q) = resolve s2 (y # q)"
    if "\<And>item. item \<in> set itemsToDelete \<Longrightarrow> fst item \<noteq> y" "y \<noteq> ''dados''" for y q
    using preservesD [OF preserves_cleanOldFiles_body b3, of y q] that by simp
  have under3: "resolve s3 (''dados'' # y # q) = None" for y q
    using empty3 by (cases s3) (auto simp: resolve.simps split: option.splits)
  define ts' where "ts' = AList.delete ''README.md'' ts"
  have t': "rm [''README.md''] t = Dir ts'"
    by (simp add: t ts'_def)
  have wft': "wf_node (Dir ts')"
    using wft by (simp only: ts'_def wf_rm_entry)
  have temp3: "resolve s3 TEMP_DIR = Some (Dir ts')"
    using k3 [of "''temp_richbess''" "[]"] temp_item t2 t' by (auto simp: TEMP_DIR_def)
  have sub: "map_of ts f = Some y" if "map_of ts' f = Some y" for f y
    using that by (simp add: ts'_def delete_conv' split: if_splits)
  have nt: "''temp_richbess'' \<notin> fst ` set ts'"
  proof -
    have "map_of ts ''temp_richbess'' = None"
      using no_temp t by (simp add: TEMP_DIR_def resolve.simps split: option.splits)
    then have "map_of ts' ''temp_richbess'' = None"
      using sub by (cases "map_of ts' ''temp_richbess''") auto
    then show ?thesis by (simp add: map_of_eq_None_iff)
  qed
  have nb: "bk \<notin> fst ` set ts'"
  proof -
    have "map_of ts bk = None"
      using no_bk t by (simp add: resolve.simps split: option.splits)
    then have "map_of ts' bk = None"
      using sub by (cases "map_of ts' bk") auto
    then show ?thesis by (simp add: map_of_eq_None_iff)
  qed
  have all: "\<forall>e\<in>set ts. fst e \<in> set (map fst itemsToDelete)
      \<or> (if fst e = ''dados'' then isDirectory (snd e) else fits (snd e) (resolve s [fst e]))"
    using fl t by (simp add: fits_live_def list_all_iff)
  have lives: "f \<in> set (map fst itemsToDelete)
      \<or> (if f = ''dados'' then isDirectory y else fits y (resolve s [f]))"
    if "(f, y) \<in> set ts" for f y
    using bspec [OF all that] by (auto split: if_splits)
  have ft4: "fits y (resolve s3 [f])" if m: "map_of ts' f = Some y" for f y
  proof -
    have mem: "(f, y) \<in> set ts" using sub [OF m] by (rule map_of_SomeD)
    have fb: "f \<noteq> bk" "f \<noteq> ''temp_richbess''"
      using m nb nt by (auto simp: map_of_eq_None_iff [symmetric])
    show ?thesis
    proof (cases "f \<in> set (map fst itemsToDelete)")
      case True
      then obtain item where item: "item \<in> set itemsToDelete" "fst item = f" by auto
      have "resolve s3 [f] = None" using gone3 [OF item(1)] item(2) by simp
      then show ?thesis by simp
    next
      case False
      show ?thesis
      proof (cases "f = ''dados''")
        case True
        then have "isDirectory y"
          using lives [OF mem] False by simp
        then show ?thesis using True empty3 by (simp add: fits_empty)
      next
        case nd: False
        have "fits y (resolve s [f])"
          using lives [OF mem] False nd by simp
        moreover have "resolve s3 [f] = resolve s [f]"
          using k3 [of f "[]"] k2 [of f "[]"] live1 [of f "[]"] False nd fb by auto
        ultimately show ?thesis by simp
      qed
    qed
  qed
  obtain s4 where b4: "applyUpdate_body env s3 = Some (None, s4)"
    and k4: "\<And>y q. y \<notin> fst ` set ts' \<Longrightarrow> y \<noteq> ''temp_richbess'' \<Longrightarrow>
          resolve s4 (y # q) = resolve s3 (y # q)"
    and dados4: "resolve s4 [''dados'']
        = (case map_of ts' ''dados'' of None \<Rightarrow> Some (Dir []) | Some y \<Rightarrow> Some y)"
    using applyUpdate_body_ok [OF wft' temp3 nt ft4 empty3, of env] by blast
  have "resolve t [''dados''] = map_of ts' ''dados''"
    by (simp add: t ts'_def resolve.simps delete_conv' split: option.splits)
  then have applied: "resolve s4 [''dados'']
        = Some (case resolve t [''dados''] of None \<Rightarrow> Dir [] | Some d \<Rightarrow> d)"
    using dados4 by (simp split: option.splits)
  have snap4: "resolve s4 (bk # q) = resolve (snapshot_of s) q" for q
    using k4 [OF nb x(2), of q] k3 [of bk q] k2 [of bk q] snap1 [of q] bk_item x by auto
  have kept4: "resolve s4 (bk # ''dados'' # q) = resolve (kept_of s) q" for q
    using snap4 [of "''dados'' # q"] by (simp add: snapshot_of_kept resolve.simps)
  have isk: "isDirectory (kept_of s)" by (simp add: kept_of_def)
  obtain dd where d4: "resolve s4 [''dados''] = Some (Dir dd)"
    and f4: "fits (kept_of s) (Some (Dir dd))"
  proof (cases "map_of ts' ''dados''")
    case None
    then show ?thesis using that dados4 isk by (simp add: fits_empty)
  next
    case (Some y)
    have "fits y (Some (Dir []))" using ft4 [OF Some] empty3 by simp
    then obtain dd where y: "y = Dir dd" by (cases y) auto
    have "resolve t [''dados''] = Some y"
      using sub [OF Some] t by (simp add: resolve.simps)
    then show ?thesis using that dados4 Some y fk by simp
  qed
  obtain s5 where b5: "restoreBackup_body env s4 = Some (None, s5)"
    using restoreBackup_body_ok [OF B _ kept4 br d4 f4] x by blast
  have saved4: "resolve s4 ([bk] @ [''dados'', ''database'', ''db.json'']) = Some (File v)"
    "resolve s4 ([bk] @ [''dados'', ''src'', ''config.json'']) = Some (File c)"
    using saved snap4 snap1 by simp_all
  have live5: "resolve s5 ([] @ [''dados'', ''database'', ''db.json'']) = Some (File v)
      \<and> resolve s5 ([] @ [''dados'', ''src'', ''config.json'']) = Some (File c)"
    using transfer_success [of "[]" "[bk]" s4 s5 v c] b5 saved4 x
    by (simp add: restoreBackup_body_def B)
  define w1 where "w1 = \<lparr>disk = s1, console = console w @ [Begin CreateBackup, Succeeded CreateBackup]\<rparr>"
  define w2 where "w2 = \<lparr>disk = s2, console = console w1 @ [Begin DownloadUpdate, Succeeded DownloadUpdate]\<rparr>"
  define w3 where "w3 = \<lparr>disk = s3, console = console w2 @ [Begin CleanOldFiles, Succeeded CleanOldFiles]\<rparr>"
  define w4 where "w4 = \<lparr>disk = s4, console = console w3 @ [Begin ApplyUpdate, Succeeded ApplyUpdate]\<rparr>"
  define w5 where "w5 = \<lparr>disk = s5, console = console w4 @ [Begin RestoreBackup, Succeeded RestoreBackup]\<rparr>"
  have r1: "createBackup env w = Some (Done, w1)"
    using b1 by (simp add: createBackup_def attempt_def w1_def s_def)
  have r2: "downloadUpdate env w1 = Some (Done, w2)"
    using b2 by (simp add: downloadUpdate_def attempt_def w2_def w1_def)
  have r3: "cleanOldFiles env w2 = Some (Done, w3)"
    using b3 by (simp add: cleanOldFiles_def attempt_def w3_def w2_def)
  have r4: "applyUpdate env w3 = Some (Done, w4)"
    using b4 by (simp add: applyUpdate_def attempt_def w4_def w3_def)
  have r5: "restoreBackup env w4 = Some (Done, w5)"
    using b5 by (simp add: restoreBackup_def attempt_def w5_def w4_def)
  have "resolve (disk w3) [''dados'', ''database'', ''db.json''] = None"
    "resolve (disk w3) [''dados'', ''src'', ''config.json''] = None"
    using under3 by (simp_all add: w3_def)
  moreover have "resolve (disk w5) [''dados'', ''database'', ''db.json''] = Some (File v)"
    "resolve (disk w5) [''dados'', ''src'', ''config.json''] = Some (File c)"
    using live5 by (simp_all add: w5_def)
  moreover have "resolve (disk w2) TEMP_DIR = Some (rm [''README.md''] t)"
    using t2 by (simp add: w2_def)
  moreover have "resolve (disk w4) [''dados'']
        = Some (case resolve t [''dados''] of None \<Rightarrow> Dir [] | Some d \<Rightarrow> d)"
    using applied by (simp add: w4_def)
  ultimately show ?thesis
    using r1 r2 r3 r4 r5 by blast
qed

theorem end_to_end_preservation_witness:
  \<open>\<exists>w1 w2 w3 w4 w5.
          createBackup env_new_release in_service = Some (Done, w1)
        \<and> downloadUpdate env_new_release w1 = Some (Done, w2)
        \<and> cleanOldFiles env_new_release w2 = Some (Done, w3)
        \<and> applyUpdate env_new_release w3 = Some (Done, w4)
        \<and> restoreBackup env_new_release w4 = Some (Done, w5)
        \<and> resolve (disk w3) [''dados'', ''database'', ''db.json''] = None
        \<and> resolve (disk w3) [''dados'', ''src'', ''config.json''] = None
        \<and> resolve (disk w4) [''dados'']
            = Some (Dir [(''database'', Dir [(''db.json'', File ''{"v":2}'')]),
                         (''src'',
                          Dir [(''config.json'', File ''{"prefixo":"#"}''),
                               (''connect.js'', File ''new code'')])])
        \<and> resolve (disk w5) [''dados'', ''database'', ''db.json''] = Some (File ''{"v":1}'')
        \<and> resolve (disk w5) [''dados'', ''src'', ''config.json''] = Some (File ''{"prefixo":"!"}'')\<close>
proof -
  have h1: \<open>resolve (disk in_service) [''dados'', ''database'', ''db.json''] = Some (File ''{"v":1}'')\<close>
    by code_simp
  have h2: \<open>resolve (disk in_service) [''dados'', ''src'', ''config.json'']
      = Some (File ''{"prefixo":"!"}'')\<close>
    by code_simp
  have h3: "gitClone env_new_release = Cloned new_release"
    by (simp add: env_new_release_def)
  have h4: "update_ready env_new_release (disk in_service) new_release"
    by code_simp
  have h5: \<open>(case resolve new_release [''dados''] of None \<Rightarrow> Dir [] | Some d \<Rightarrow> d)
      = Dir [(''database'', Dir [(''db.json'', File ''{"v":2}'')]),
             (''src'',
              Dir [(''config.json'', File ''{"prefixo":"#"}''),
                   (''connect.js'', File ''new code'')])]\<close>
    by code_simp
  show ?thesis
    using end_to_end_preservation [OF h1 h2 h3 h4] h5 by auto
qed

end
